theory Spec2Isabelle
  imports Complex_Main "HOL-Library.AList"
begin

section \<open>The quest graph layout of app.js\<close>

text \<open>
  The layout engine is the function \<^verbatim>\<open>calculateLayout\<close> of \<^verbatim>\<open>src/js/app.js\<close>
  (lines 198 to 270) with its local recursive helper \<^verbatim>\<open>assignLevel\<close>.  It reads the
  global \<^verbatim>\<open>data.quests\<close>, keeps two local containers (\<^verbatim>\<open>levels\<close>, a Map from quest
  id to level, and \<^verbatim>\<open>processed\<close>, a Set of quest ids), and fills the global Map
  \<^verbatim>\<open>nodePositions\<close>.
\<close>

subsection \<open>Configuration (lines 11 to 23)\<close>

definition nodeSpacingX :: real where
  "nodeSpacingX = 160"

definition nodeSpacingY :: real where
  "nodeSpacingY = 80"

subsection \<open>Data\<close>

text \<open>
  Of a quest record the layout reads \<^verbatim>\<open>id\<close>, \<^verbatim>\<open>unlockMilestone\<close> and
  \<^verbatim>\<open>prerequisites\<close> only; the remaining fields are left out.  The field \<^verbatim>\<open>id\<close> is
  named \<open>quest_id\<close>, since \<open>id\<close> is the identity function of HOL.
\<close>

record quest =
  quest_id :: string
  unlockMilestone :: bool
  prerequisites :: "string list"

text \<open>
  The value \<^verbatim>\<open>{x, y}\<close> stored in \<^verbatim>\<open>nodePositions\<close>.  The coordinates are integer
  multiples of 80 (\<open>nodeSpacingX\<close> is even), far below \<open>2 ^ 53\<close> for any dataset that fits
  in memory; there the arithmetic of JavaScript numbers is exact, so they are reals here.
\<close>

record position =
  pos_x :: real
  pos_y :: real

text \<open>
  A JavaScript Map iterates in insertion order, and \<^verbatim>\<open>set\<close> on a key that is present
  replaces the value where the key stands.  This is an association list with
  \<^const>\<open>AList.update\<close> for \<^verbatim>\<open>set\<close> and \<^const>\<open>map_of\<close> for \<^verbatim>\<open>get\<close>
  (\<open>None\<close> is \<^verbatim>\<open>undefined\<close>).  A Set is the list of its elements in insertion order.
\<close>

definition set_add :: "'a \<Rightarrow> 'a list \<Rightarrow> 'a list" where
  "set_add a xs = (if a \<in> set xs then xs else xs @ [a])"

record layout_state =
  levels :: "(string \<times> nat) list"
  processed :: "string list"

text \<open>
  \<^verbatim>\<open>Math.max(...[])\<close> is \<^verbatim>\<open>-Infinity\<close>; line 254 can reach it, so \<^verbatim>\<open>maxLevel\<close>
  ranges over the levels and this one extra value.
\<close>

datatype js_number = NegInfinity | Num nat

record layout_result =
  maxLevel :: js_number
  levelGroups :: "(nat \<times> string list) list"

subsection \<open>Helpers\<close>

text \<open>\<^verbatim>\<open>xs.forEach(f)\<close> where \<open>f\<close> updates the state and may throw.\<close>

fun forEach :: "'a list \<Rightarrow> ('a \<Rightarrow> 's \<Rightarrow> 's option) \<Rightarrow> 's \<Rightarrow> 's option" where
  "forEach [] f s = Some s"
| "forEach (a # as) f s = (case f a s of None \<Rightarrow> None | Some s' \<Rightarrow> forEach as f s')"

text \<open>\<^verbatim>\<open>.filter(l => l !== undefined)\<close> on the list of looked-up levels.\<close>

fun definedLevels :: "nat option list \<Rightarrow> nat list" where
  "definedLevels [] = []"
| "definedLevels (None # ls) = definedLevels ls"
| "definedLevels (Some l # ls) = l # definedLevels ls"

text \<open>
  \<^verbatim>\<open>Math.max(...prereqLevels)\<close> at lines 223 and 239.  Both calls are guarded so that
  the list is not empty (line 222 compares its length with that of a prerequisite list
  containing \<^verbatim>\<open>quest.id\<close>; line 239 tests \<^verbatim>\<open>length > 0\<close>), and levels are natural
  numbers, so the greatest element is the fold of \<open>max\<close> from 0.
\<close>

definition math_max :: "nat list \<Rightarrow> nat" where
  "math_max ls = fold max ls 0"

text \<open>\<^verbatim>\<open>Math.max(...levelGroups.keys())\<close> at line 254, where the spread may be empty.\<close>

fun math_max_keys :: "nat list \<Rightarrow> js_number" where
  "math_max_keys [] = NegInfinity"
| "math_max_keys (k # ks) = Num (fold max ks k)"

subsection \<open>assignLevel (lines 208 to 227)\<close>

text \<open>
  \<^verbatim>\<open>assignLevel\<close> calls itself from inside \<^verbatim>\<open>children.forEach\<close>, with nothing that
  bounds the nesting.  A JavaScript engine has a finite call stack: \<open>depth\<close> is the
  number of nested activations of \<^verbatim>\<open>assignLevel\<close> that the stack still has room for,
  and the result \<open>None\<close> is the \<^verbatim>\<open>RangeError\<close> thrown when a further call is made
  with no room left.  Nothing in \<^verbatim>\<open>calculateLayout\<close> catches it.
\<close>

fun assignLevel :: "nat \<Rightarrow> quest list \<Rightarrow> quest \<Rightarrow> nat \<Rightarrow> layout_state \<Rightarrow> layout_state option" where
  "assignLevel 0 quests quest level s = None"
| "assignLevel (Suc depth) quests quest level s =
     (if quest_id quest \<in> set (processed s) \<and>
         (case map_of (levels s) (quest_id quest) of
            None \<Rightarrow> False
          | Some existing \<Rightarrow> existing \<ge> level)
      then Some s
      else
        let s1 = s\<lparr>levels := AList.update (quest_id quest) level (levels s),
                    processed := set_add (quest_id quest) (processed s)\<rparr>;
            children = filter (\<lambda>q. quest_id quest \<in> set (prerequisites q)) quests
        in forEach children
             (\<lambda>child s'.
                let prereqLevels = definedLevels (map (map_of (levels s')) (prerequisites child))
                in if length prereqLevels = length (prerequisites child)
                   then assignLevel depth quests child (math_max prereqLevels + 1) s'
                   else Some s')
             s1)"

subsection \<open>The two passes of calculateLayout (lines 202 to 244)\<close>

definition roots :: "quest list \<Rightarrow> quest list" where
  "roots quests = filter (\<lambda>q. unlockMilestone q \<and> length (prerequisites q) = 0) quests"

text \<open>The initial containers of lines 202 and 203.\<close>

definition emptyState :: layout_state where
  "emptyState = \<lparr>levels = [], processed = []\<rparr>"

text \<open>Line 230: \<^verbatim>\<open>roots.forEach(root => assignLevel(root, 0))\<close> on the empty containers.\<close>

definition primaryPass :: "nat \<Rightarrow> quest list \<Rightarrow> layout_state option" where
  "primaryPass depth quests =
     forEach (roots quests) (\<lambda>root. assignLevel depth quests root 0) emptyState"

text \<open>The body of \<^verbatim>\<open>data.quests.forEach\<close> at lines 235 to 243.\<close>

definition sweepQuest :: "nat \<Rightarrow> quest list \<Rightarrow> quest \<Rightarrow> layout_state \<Rightarrow> layout_state option" where
  "sweepQuest depth quests q s =
     (if quest_id q \<notin> set (processed s) then
        let prereqLevels = definedLevels (map (map_of (levels s)) (prerequisites q))
        in if length prereqLevels > 0 \<or> length (prerequisites q) = 0
           then let level = (if length prereqLevels > 0 then math_max prereqLevels + 1 else 0)
                in assignLevel depth quests q level s
           else Some s
      else Some s)"

text \<open>
  The \<^verbatim>\<open>while\<close> loop of line 234; the third argument is \<^verbatim>\<open>maxAttempts\<close>.  The loop
  leaves with the state unchanged when \<^verbatim>\<open>maxAttempts\<close> is 0 or when
  \<^verbatim>\<open>processed.size\<close> has reached \<^verbatim>\<open>data.quests.length\<close>.
\<close>

fun fallbackSweep :: "nat \<Rightarrow> quest list \<Rightarrow> nat \<Rightarrow> layout_state \<Rightarrow> layout_state option" where
  "fallbackSweep depth quests 0 s = Some s"
| "fallbackSweep depth quests (Suc maxAttempts) s =
     (if length (processed s) < length quests
      then (case forEach quests (sweepQuest depth quests) s of
              None \<Rightarrow> None
            | Some s' \<Rightarrow> fallbackSweep depth quests maxAttempts s')
      else Some s)"

definition computeLevels :: "nat \<Rightarrow> quest list \<Rightarrow> layout_state option" where
  "computeLevels depth quests =
     (case primaryPass depth quests of
        None \<Rightarrow> None
      | Some s \<Rightarrow> fallbackSweep depth quests 10 s)"

subsection \<open>Grouping and placement (lines 246 to 269)\<close>

text \<open>The body of \<^verbatim>\<open>levels.forEach((level, id) => ...)\<close>, lines 249 and 250.\<close>

definition groupStep :: "string \<times> nat \<Rightarrow> (nat \<times> string list) list \<Rightarrow> (nat \<times> string list) list" where
  "groupStep e groups =
     (case e of (ident, level) \<Rightarrow>
        (case map_of groups level of
           None \<Rightarrow> AList.update level [ident] groups
         | Some ids \<Rightarrow> AList.update level (ids @ [ident]) groups))"

definition groupByLevel :: "(string \<times> nat) list \<Rightarrow> (nat \<times> string list) list" where
  "groupByLevel lv = fold groupStep lv []"

text \<open>The body of \<^verbatim>\<open>levelGroups.forEach((ids, level) => ...)\<close>, lines 257 to 266.\<close>

definition placeRow :: "nat \<times> string list \<Rightarrow> (string \<times> position) list \<Rightarrow> (string \<times> position) list" where
  "placeRow g nodePositions =
     (case g of (level, ids) \<Rightarrow>
        let count = length ids;
            totalWidth = (real count - 1) * nodeSpacingX;
            startX = - totalWidth / 2
        in fold (\<lambda>(i, ident). AList.update ident
                   \<lparr>pos_x = startX + real i * nodeSpacingX,
                    pos_y = real level * nodeSpacingY\<rparr>)
             (enumerate 0 ids) nodePositions)"

text \<open>
  \<^verbatim>\<open>calculateLayout\<close>.  The global \<^verbatim>\<open>nodePositions\<close> is an argument (its content
  before the call) and a result (its content after); line 199 clears it.
\<close>

definition calculateLayout ::
  "nat \<Rightarrow> quest list \<Rightarrow> (string \<times> position) list
     \<Rightarrow> (layout_result \<times> (string \<times> position) list) option" where
  "calculateLayout depth quests nodePositions =
     (let cleared = [] in
      case computeLevels depth quests of
        None \<Rightarrow> None
      | Some s \<Rightarrow>
          let groups = groupByLevel (levels s);
              maxL = math_max_keys (map fst groups)
          in Some (\<lparr>maxLevel = maxL, levelGroups = groups\<rparr>, fold placeRow groups cleared))"

subsection \<open>Vocabulary for the properties\<close>

text \<open>The level of a quest id in a state: \<^verbatim>\<open>levels.get(id)\<close>.\<close>

definition level_of :: "layout_state \<Rightarrow> string \<Rightarrow> nat option" where
  "level_of s i = map_of (levels s) i"

text \<open>
  The pieces of \<^verbatim>\<open>assignLevel\<close>, named so that proofs can speak about them: the test
  of lines 209 to 212, the two writes of lines 214 and 215, the list of line 218, the
  list of line 221 and the body of \<^verbatim>\<open>children.forEach\<close>.  Lemma \<open>assignLevel_Suc\<close>
  below shows that \<open>assignLevel\<close> is made of exactly these.
\<close>

definition returnsEarly :: "quest \<Rightarrow> nat \<Rightarrow> layout_state \<Rightarrow> bool" where
  "returnsEarly q l s \<longleftrightarrow>
     quest_id q \<in> set (processed s) \<and>
     (case map_of (levels s) (quest_id q) of None \<Rightarrow> False | Some existing \<Rightarrow> existing \<ge> l)"

definition markLevel :: "quest \<Rightarrow> nat \<Rightarrow> layout_state \<Rightarrow> layout_state" where
  "markLevel q l s = s\<lparr>levels := AList.update (quest_id q) l (levels s),
                        processed := set_add (quest_id q) (processed s)\<rparr>"

definition childrenOf :: "quest list \<Rightarrow> quest \<Rightarrow> quest list" where
  "childrenOf quests q = filter (\<lambda>c. quest_id q \<in> set (prerequisites c)) quests"

definition prereqLevelsOf :: "layout_state \<Rightarrow> quest \<Rightarrow> nat list" where
  "prereqLevelsOf s q = definedLevels (map (map_of (levels s)) (prerequisites q))"

definition visitChild ::
  "(quest \<Rightarrow> nat \<Rightarrow> layout_state \<Rightarrow> layout_state option)
     \<Rightarrow> quest \<Rightarrow> layout_state \<Rightarrow> layout_state option" where
  "visitChild rec =
     (\<lambda>child s.
        if length (prereqLevelsOf s child) = length (prerequisites child)
        then rec child (math_max (prereqLevelsOf s child) + 1) s
        else Some s)"

text \<open>Every prerequisite of the quest has a level.\<close>

definition allLeveled :: "layout_state \<Rightarrow> quest \<Rightarrow> bool" where
  "allLeveled s q \<longleftrightarrow> (\<forall>p \<in> set (prerequisites q). level_of s p \<noteq> None)"

text \<open>
  The two containers agree: the ids in \<^verbatim>\<open>processed\<close> are the keys of \<^verbatim>\<open>levels\<close>.
  Lines 214 and 215 are the only writes and keep it so.
\<close>

definition consistent :: "layout_state \<Rightarrow> bool" where
  "consistent s \<longleftrightarrow> set (processed s) = fst ` set (levels s)"

text \<open>Every id that has a level in \<open>s\<close> has one in \<open>s'\<close> that is not smaller.\<close>

definition levels_le :: "layout_state \<Rightarrow> layout_state \<Rightarrow> bool" where
  "levels_le s s' \<longleftrightarrow>
     (\<forall>i e. level_of s i = Some e \<longrightarrow> (\<exists>e'. level_of s' i = Some e' \<and> e \<le> e'))"

text \<open>
  The position that lines 262 to 265 store for the entry at index \<open>k\<close> of a level group
  of \<open>n\<close> ids.
\<close>

definition rowPosition :: "nat \<Rightarrow> nat \<Rightarrow> nat \<Rightarrow> position" where
  "rowPosition level n k =
     \<lparr>pos_x = - ((real n - 1) * nodeSpacingX) / 2 + real k * nodeSpacingX,
      pos_y = real level * nodeSpacingY\<rparr>"

text \<open>
  \<open>groups\<close> is the partition of the keys of the level map by level: keys distinct, no
  empty group, no id twice, and the group of a level holds exactly the ids at that level.
\<close>

definition grouped :: "(string \<times> nat) list \<Rightarrow> (nat \<times> string list) list \<Rightarrow> bool" where
  "grouped lv groups \<longleftrightarrow>
     distinct (map fst groups) \<and>
     (\<forall>l ids. (l, ids) \<in> set groups \<longrightarrow>
        ids \<noteq> [] \<and> distinct ids \<and> (\<forall>i. i \<in> set ids \<longleftrightarrow> map_of lv i = Some l)) \<and>
     (\<forall>i l. map_of lv i = Some l \<longrightarrow> l \<in> fst ` set groups)"

text \<open>
  What holds of the two containers throughout: they agree, no key or element occurs
  twice, and every key is the id of a quest of the dataset.
\<close>

definition wellformed :: "quest list \<Rightarrow> layout_state \<Rightarrow> bool" where
  "wellformed quests s \<longleftrightarrow>
     consistent s \<and> distinct (map fst (levels s)) \<and> distinct (processed s) \<and>
     fst ` set (levels s) \<subseteq> quest_id ` set quests"

text \<open>
  What the primary pass leaves: every level belongs to a quest of the dataset, and it
  is 0 for a milestone without prerequisites, positive for a quest with prerequisites,
  and absent otherwise.
\<close>

definition seededOnly :: "quest list \<Rightarrow> layout_state \<Rightarrow> bool" where
  "seededOnly quests s \<longleftrightarrow>
     (\<forall>i l. level_of s i = Some l \<longrightarrow>
        (\<exists>q \<in> set quests. quest_id q = i \<and>
           (if prerequisites q = [] then unlockMilestone q \<and> l = 0 else 0 < l)))"

text \<open>
  What both passes leave: the two containers agree, and the level of a quest is 0 when
  it has no prerequisites and otherwise at most one more than the level of one of its
  prerequisites.
\<close>

definition justified :: "quest list \<Rightarrow> layout_state \<Rightarrow> bool" where
  "justified quests s \<longleftrightarrow>
     consistent s \<and>
     (\<forall>i l. level_of s i = Some l \<longrightarrow>
        (\<exists>q \<in> set quests. quest_id q = i \<and>
           (if prerequisites q = [] then l = 0
            else \<exists>p \<in> set (prerequisites q). \<exists>e. level_of s p = Some e \<and> l \<le> e + 1)))"

text \<open>The id is a key of \<^verbatim>\<open>levels\<close>.\<close>

definition hasLevel :: "layout_state \<Rightarrow> string \<Rightarrow> bool" where
  "hasLevel s i \<longleftrightarrow> level_of s i \<noteq> None"

text \<open>The id \<open>x\<close> has no level, in a well-formed state.\<close>

definition avoiding :: "string \<Rightarrow> quest list \<Rightarrow> layout_state \<Rightarrow> bool" where
  "avoiding x quests s \<longleftrightarrow> wellformed quests s \<and> \<not> hasLevel s x"

text \<open>
  A quest that has a level, and all of whose prerequisites have one, stands above each
  of them.
\<close>

definition aboveParents :: "layout_state \<Rightarrow> quest \<Rightarrow> bool" where
  "aboveParents s c \<longleftrightarrow>
     (\<forall>l. level_of s (quest_id c) = Some l \<longrightarrow> allLeveled s c \<longrightarrow>
        (\<forall>p \<in> set (prerequisites c). \<forall>e. level_of s p = Some e \<longrightarrow> e < l))"

text \<open>
  The state between two steps of the propagation: every quest stands above its
  prerequisites, but for the quests with an id in \<open>D\<close>, which line 224 has yet to
  visit.
\<close>

definition settled :: "quest list \<Rightarrow> string set \<Rightarrow> layout_state \<Rightarrow> bool" where
  "settled quests D s \<longleftrightarrow>
     consistent s \<and> (\<forall>c \<in> set quests. quest_id c \<notin> D \<longrightarrow> aboveParents s c)"

text \<open>The level passed to \<^verbatim>\<open>assignLevel\<close> is above the levels of the prerequisites.\<close>

definition callOk :: "quest \<Rightarrow> nat \<Rightarrow> layout_state \<Rightarrow> bool" where
  "callOk q l s \<longleftrightarrow>
     (allLeveled s q \<longrightarrow> (\<forall>p \<in> set (prerequisites q). \<forall>e. level_of s p = Some e \<longrightarrow> e < l))"

text \<open>The levels of the prerequisites of a quest.\<close>

definition prereqLevelSet :: "layout_state \<Rightarrow> quest \<Rightarrow> nat set" where
  "prereqLevelSet s q = {e. \<exists>p \<in> set (prerequisites q). level_of s p = Some e}"

text \<open>
  The propagation has caught up: every quest with prerequisites, all of which have a
  level, has a level itself, but for the quests in \<open>D\<close>, which line 224 has yet to
  visit.
\<close>

definition closedUnder :: "quest list \<Rightarrow> quest set \<Rightarrow> layout_state \<Rightarrow> bool" where
  "closedUnder quests D s \<longleftrightarrow>
     consistent s \<and>
     (\<forall>c \<in> set quests. c \<notin> D \<longrightarrow> prerequisites c \<noteq> [] \<longrightarrow> allLeveled s c \<longrightarrow>
        hasLevel s (quest_id c))"

text \<open>
  The ids at a level in assigned order: the keys of the level map with that level, in
  the order in which the Map holds them (the order of their first assignment).
\<close>

definition idsAtLevel :: "(string \<times> nat) list \<Rightarrow> nat \<Rightarrow> string list" where
  "idsAtLevel lv l = map fst (filter (\<lambda>e. snd e = l) lv)"

text \<open>
  A dataset without prerequisite cycles: every id has a rank, at most \<open>bound\<close> for the
  ids of the quests, and every prerequisite of a quest ranks below the quest.
\<close>

definition ranked :: "(string \<Rightarrow> nat) \<Rightarrow> nat \<Rightarrow> quest list \<Rightarrow> bool" where
  "ranked rank bound quests \<longleftrightarrow>
     (\<forall>q \<in> set quests. rank (quest_id q) \<le> bound \<and>
        (\<forall>p \<in> set (prerequisites q). rank p < rank (quest_id q)))"

subsection \<open>Example datasets\<close>

definition mkQuest :: "string \<Rightarrow> bool \<Rightarrow> string list \<Rightarrow> quest" where
  "mkQuest i m ps = \<lparr>quest_id = i, unlockMilestone = m, prerequisites = ps\<rparr>"

text \<open>The first scenario of the specification: a root, two middle quests, a join.\<close>

definition diamond :: "quest list" where
  "diamond = [mkQuest ''R'' True [], mkQuest ''M1'' False [''R''],
              mkQuest ''M2'' False [''R''], mkQuest ''F'' False [''M1'', ''M2'']]"


text \<open>The same cycle, where A also requires the root R.\<close>

definition cycR :: quest where
  "cycR = mkQuest ''R'' True []"

definition cycA :: quest where
  "cycA = mkQuest ''A'' False [''R'', ''B'']"

definition cycB :: quest where
  "cycB = mkQuest ''B'' False [''A'']"

definition rootedCycle :: "quest list" where
  "rootedCycle = [cycR, cycA, cycB]"

text \<open>The state of the run on \<open>rootedCycle\<close> after the primary pass.\<close>

definition cycSeeded :: layout_state where
  "cycSeeded = \<lparr>levels = [(''R'', 0)], processed = [''R'']\<rparr>"


text \<open>The second scenario of the specification: one quest, its only prerequisite unknown.\<close>

definition danglingOnly :: "quest list" where
  "danglingOnly = [mkQuest ''X'' False [''unknown'']]"

text \<open>
  An acyclic dataset: A is the root; P requires A and D; Q requires P and an unknown
  id; E has no prerequisites and is no milestone; D requires E and stands after Q in the
  list.
\<close>

definition staleEdge :: "quest list" where
  "staleEdge = [mkQuest ''A'' True [], mkQuest ''P'' False [''A'', ''D''],
                mkQuest ''Q'' False [''P'', ''unknown''], mkQuest ''E'' False [],
                mkQuest ''D'' False [''E'']]"

text \<open>
  Two states of the run on \<open>staleEdge\<close>: the one in which line 224 calls
  \<^verbatim>\<open>assignLevel(D, 1)\<close> during the first fallback pass, and the final one.
\<close>

definition staleMid :: layout_state where
  "staleMid = \<lparr>levels = [(''A'', 0), (''P'', 1), (''Q'', 2), (''E'', 0)],
                processed = [''A'', ''P'', ''Q'', ''E'']\<rparr>"

definition staleFinal :: layout_state where
  "staleFinal = \<lparr>levels = [(''A'', 0), (''P'', 2), (''Q'', 2), (''E'', 0), (''D'', 1)],
                  processed = [''A'', ''P'', ''Q'', ''E'', ''D'']\<rparr>"

text \<open>The layout of \<open>diamond\<close>.\<close>

definition diamondResult :: layout_result where
  "diamondResult = \<lparr>maxLevel = Num 2,
      levelGroups = [(0, [''R'']), (1, [''M1'', ''M2'']), (2, [''F''])]\<rparr>"

definition diamondPositions :: "(string \<times> position) list" where
  "diamondPositions = [(''R'', \<lparr>pos_x = 0, pos_y = 0\<rparr>), (''M1'', \<lparr>pos_x = - 80, pos_y = 80\<rparr>),
    (''M2'', \<lparr>pos_x = 80, pos_y = 80\<rparr>), (''F'', \<lparr>pos_x = 0, pos_y = 160\<rparr>)]"

text \<open>The levels of \<open>diamond\<close>.\<close>

definition diamondLevels :: layout_state where
  "diamondLevels = \<lparr>levels = [(''R'', 0), (''M1'', 1), (''M2'', 1), (''F'', 2)],
                      processed = [''R'', ''M1'', ''M2'', ''F'']\<rparr>"





section \<open>Basic facts\<close>

lemma assignLevel_Suc:
  "assignLevel (Suc d) quests q l s =
     (if returnsEarly q l s then Some s
      else forEach (childrenOf quests q) (visitChild (assignLevel d quests)) (markLevel q l s))"
  unfolding returnsEarly_def markLevel_def childrenOf_def visitChild_def prereqLevelsOf_def
  by (simp add: Let_def)

declare assignLevel.simps(2) [simp del]

text \<open>An invariant of the loop body is an invariant of \<open>forEach\<close>.\<close>

lemma forEach_inv:
  assumes "forEach xs f s = Some s'" and "I s"
    and "\<And>a t t'. a \<in> set xs \<Longrightarrow> I t \<Longrightarrow> f a t = Some t' \<Longrightarrow> I t'"
  shows "I s'"
  using assms
proof (induction xs arbitrary: s)
  case Nil
  then show ?case by simp
next
  case (Cons a as)
  from Cons.prems(1) obtain t where t: "f a s = Some t" and rest: "forEach as f t = Some s'"
    by (auto split: option.splits)
  have "I t" by (rule Cons.prems(3) [OF _ Cons.prems(2) t]) simp
  then show ?case
    by (rule Cons.IH [OF rest]) (rule Cons.prems(3), simp_all)
qed

lemma forEach_mono:
  assumes "forEach xs f s = Some s'"
    and "\<And>a t t'. a \<in> set xs \<Longrightarrow> f a t = Some t' \<Longrightarrow> g a t = Some t'"
  shows "forEach xs g s = Some s'"
  using assms
proof (induction xs arbitrary: s)
  case Nil
  then show ?case by simp
next
  case (Cons a as)
  from Cons.prems(1) obtain t where t: "f a s = Some t" and rest: "forEach as f t = Some s'"
    by (auto split: option.splits)
  have "g a s = Some t" using Cons.prems(2) t by simp
  moreover have "forEach as g t = Some s'" using Cons.IH [OF rest] Cons.prems(2) by simp
  ultimately show ?case by simp
qed

subsection \<open>A deeper stack changes no result\<close>

lemma assignLevel_deeper:
  "assignLevel d quests q l s = Some s' \<Longrightarrow> assignLevel (Suc d) quests q l s = Some s'"
proof (induction d arbitrary: q l s s')
  case 0
  then show ?case by simp
next
  case (Suc d)
  show ?case
  proof (cases "returnsEarly q l s")
    case True
    then show ?thesis using Suc.prems by (simp add: assignLevel_Suc)
  next
    case False
    with Suc.prems
    have run: "forEach (childrenOf quests q) (visitChild (assignLevel d quests)) (markLevel q l s)
                 = Some s'"
      by (simp add: assignLevel_Suc)
    have "forEach (childrenOf quests q) (visitChild (assignLevel (Suc d) quests)) (markLevel q l s)
            = Some s'"
      using run
    proof (rule forEach_mono)
      fix a t t'
      assume "visitChild (assignLevel d quests) a t = Some t'"
      then show "visitChild (assignLevel (Suc d) quests) a t = Some t'"
        using Suc.IH by (auto simp: visitChild_def split: if_splits)
    qed
    with False show ?thesis by (subst assignLevel_Suc) simp
  qed
qed

lemma assignLevel_fuel:
  "d \<le> d' \<Longrightarrow> assignLevel d quests q l s = Some s' \<Longrightarrow> assignLevel d' quests q l s = Some s'"
  by (induction rule: dec_induct) (auto intro: assignLevel_deeper)

lemma sweepQuest_fuel:
  "d \<le> d' \<Longrightarrow> sweepQuest d quests q s = Some s' \<Longrightarrow> sweepQuest d' quests q s = Some s'"
  by (auto simp: sweepQuest_def Let_def split: if_splits intro: assignLevel_fuel)

lemma fallbackSweep_fuel:
  "d \<le> d' \<Longrightarrow> fallbackSweep d quests n s = Some s' \<Longrightarrow> fallbackSweep d' quests n s = Some s'"
proof (induction n arbitrary: s)
  case 0
  then show ?case by simp
next
  case (Suc n)
  show ?case
  proof (cases "length (processed s) < length quests")
    case True
    with Suc.prems(2) obtain t where t: "forEach quests (sweepQuest d quests) s = Some t"
      and rest: "fallbackSweep d quests n t = Some s'"
      by (auto split: option.splits)
    from t have "forEach quests (sweepQuest d' quests) s = Some t"
      by (rule forEach_mono) (rule sweepQuest_fuel [OF Suc.prems(1)])
    with True Suc.IH [OF Suc.prems(1) rest] show ?thesis by simp
  next
    case False
    with Suc.prems show ?thesis by simp
  qed
qed

lemma primaryPass_fuel:
  assumes "d \<le> d'" and "primaryPass d quests = Some s"
  shows "primaryPass d' quests = Some s"
  using assms(2) unfolding primaryPass_def
  by (rule forEach_mono) (rule assignLevel_fuel [OF assms(1)])

lemma computeLevels_fuel:
  "d \<le> d' \<Longrightarrow> computeLevels d quests = Some s \<Longrightarrow> computeLevels d' quests = Some s"
proof -
  assume le: "d \<le> d'" and run: "computeLevels d quests = Some s"
  from run obtain t where t: "primaryPass d quests = Some t"
    and rest: "fallbackSweep d quests 10 t = Some s"
    by (auto simp: computeLevels_def split: option.splits)
  from primaryPass_fuel [OF le t] fallbackSweep_fuel [OF le rest]
  show ?thesis by (simp add: computeLevels_def)
qed

lemma calculateLayout_fuel:
  "d \<le> d' \<Longrightarrow> calculateLayout d quests np = Some x \<Longrightarrow> calculateLayout d' quests np' = Some x"
  by (auto simp: calculateLayout_def Let_def split: option.splits dest: computeLevels_fuel)

subsection \<open>Looked-up levels and their maximum\<close>

lemma length_definedLevels: "length (definedLevels xs) \<le> length xs"
  by (induction xs rule: definedLevels.induct) auto

lemma definedLevels_full: "length (definedLevels xs) = length xs \<longleftrightarrow> None \<notin> set xs"
proof (induction xs rule: definedLevels.induct)
  case (2 ls)
  have "length (definedLevels ls) \<le> length ls" by (rule length_definedLevels)
  then show ?case by simp
qed auto

lemma set_definedLevels: "l \<in> set (definedLevels xs) \<longleftrightarrow> Some l \<in> set xs"
  by (induction xs rule: definedLevels.induct) auto

lemma None_notin_map: "None \<notin> set (map f xs) \<longleftrightarrow> (\<forall>p \<in> set xs. f p \<noteq> None)"
  by (induction xs) auto

lemma Some_in_map: "Some l \<in> set (map f xs) \<longleftrightarrow> (\<exists>p \<in> set xs. f p = Some l)"
  by (induction xs) auto

lemma prereqLevels_full:
  "length (prereqLevelsOf s q) = length (prerequisites q) \<longleftrightarrow> allLeveled s q"
proof -
  let ?ls = "map (map_of (levels s)) (prerequisites q)"
  have "length (definedLevels ?ls) = length ?ls \<longleftrightarrow> None \<notin> set ?ls"
    by (rule definedLevels_full)
  then show ?thesis
    unfolding None_notin_map by (simp add: prereqLevelsOf_def allLeveled_def level_of_def)
qed

lemma set_prereqLevelsOf:
  "l \<in> set (prereqLevelsOf s q) \<longleftrightarrow> (\<exists>p \<in> set (prerequisites q). level_of s p = Some l)"
  unfolding prereqLevelsOf_def set_definedLevels level_of_def
  by (rule Some_in_map)

lemma prereqLevelsOf_Nil: "prerequisites q = [] \<Longrightarrow> prereqLevelsOf s q = []"
  by (simp add: prereqLevelsOf_def)

lemma math_max_Max: "math_max ls = Max (insert 0 (set ls))"
proof -
  have "Max (set (0 # ls)) = fold max ls 0" by (rule Max.set_eq_fold)
  then show ?thesis by (simp add: math_max_def)
qed

lemma math_max_ge: "a \<in> set ls \<Longrightarrow> a \<le> math_max ls"
  by (simp add: math_max_Max)

lemma math_max_in: "ls \<noteq> [] \<Longrightarrow> math_max ls \<in> set ls"
proof -
  assume ne: "ls \<noteq> []"
  have "Max (insert 0 (set ls)) \<in> insert 0 (set ls)" by (rule Max_in) auto
  then have m: "math_max ls = 0 \<or> math_max ls \<in> set ls" by (simp add: math_max_Max)
  show ?thesis
  proof (cases "math_max ls \<in> set ls")
    case False
    with m have z: "math_max ls = 0" by simp
    from ne obtain a where a: "a \<in> set ls" by (cases ls) auto
    with z math_max_ge [OF a] have "a = 0" by simp
    with a z show ?thesis by simp
  qed simp
qed

lemma level_of_markLevel:
  "level_of (markLevel q l s) i = (if i = quest_id q then Some l else level_of s i)"
  by (simp add: level_of_def markLevel_def update_conv')

lemma processed_markLevel:
  "set (processed (markLevel q l s)) = insert (quest_id q) (set (processed s))"
  by (auto simp: markLevel_def set_add_def)

lemma keys_markLevel:
  "fst ` set (levels (markLevel q l s)) = insert (quest_id q) (fst ` set (levels s))"
  using dom_update [of "quest_id q" l "levels s"] by (simp add: markLevel_def dom_map_of_conv_image_fst)

lemma level_of_None_iff: "level_of s i = None \<longleftrightarrow> i \<notin> fst ` set (levels s)"
  by (simp add: level_of_def map_of_eq_None_iff)

lemma childrenOf_D:
  "c \<in> set (childrenOf quests q) \<Longrightarrow>
   c \<in> set quests \<and> prerequisites c \<noteq> [] \<and> quest_id q \<in> set (prerequisites c)"
  by (auto simp: childrenOf_def)

text \<open>
  The two calls of \<^verbatim>\<open>Math.max\<close> on looked-up levels get a list that is not empty: at
  line 223 the list is as long as the prerequisites of a child, at line 239 its length
  has been tested.  There \<open>math_max\<close> is the greatest element.
\<close>

lemma line_223_levels_not_empty:
  assumes "c \<in> set (childrenOf quests q)"
    and "length (prereqLevelsOf s c) = length (prerequisites c)"
  shows "prereqLevelsOf s c \<noteq> []"
  using childrenOf_D [OF assms(1)] assms(2) by auto

lemma math_max_greatest:
  assumes "ls \<noteq> []"
  shows "math_max ls = Max (set ls)"
proof -
  from assms have "math_max ls \<in> set ls" by (rule math_max_in)
  moreover have "a \<le> math_max ls" if "a \<in> set ls" for a using that by (rule math_max_ge)
  ultimately show ?thesis by (intro Max_eqI [symmetric]) auto
qed

subsection \<open>A proof rule for assignLevel\<close>

text \<open>
  A state property \<open>I\<close> holds after a call when it holds before, the writes of lines
  214 and 215 keep it under a condition \<open>pre\<close> on the call, and the calls of line 224
  meet that condition.
\<close>

lemma assignLevel_rule:
  assumes "assignLevel d quests q l s = Some s'"
    and "I s" and "pre q l s"
    and mark: "\<And>q l s. I s \<Longrightarrow> pre q l s \<Longrightarrow> \<not> returnsEarly q l s \<Longrightarrow> I (markLevel q l s)"
    and child: "\<And>c s. I s \<Longrightarrow> c \<in> set quests \<Longrightarrow> prerequisites c \<noteq> [] \<Longrightarrow> allLeveled s c
                  \<Longrightarrow> pre c (math_max (prereqLevelsOf s c) + 1) s"
  shows "I s'"
  using assms(1-3)
proof (induction d arbitrary: q l s s')
  case 0
  then show ?case by simp
next
  case (Suc d)
  show ?case
  proof (cases "returnsEarly q l s")
    case True
    with Suc.prems show ?thesis by (simp add: assignLevel_Suc)
  next
    case False
    with Suc.prems(1)
    have run: "forEach (childrenOf quests q) (visitChild (assignLevel d quests)) (markLevel q l s)
                 = Some s'"
      by (simp add: assignLevel_Suc)
    have start: "I (markLevel q l s)" using Suc.prems(2,3) False by (rule mark)
    show ?thesis using run start
    proof (rule forEach_inv)
      fix a t t'
      assume a: "a \<in> set (childrenOf quests q)" and t: "I t"
        and v: "visitChild (assignLevel d quests) a t = Some t'"
      show "I t'"
      proof (cases "allLeveled t a")
        case True
        with v have r: "assignLevel d quests a (math_max (prereqLevelsOf t a) + 1) t = Some t'"
          by (simp add: visitChild_def prereqLevels_full)
        have p: "pre a (math_max (prereqLevelsOf t a) + 1) t"
          by (rule child [OF t _ _ True]) (use childrenOf_D [OF a] in simp_all)
        show ?thesis by (rule Suc.IH [OF r t p])
      next
        case False
        with v t show ?thesis by (simp add: visitChild_def prereqLevels_full)
      qed
    qed
  qed
qed

lemma mark_consistent: "consistent s \<Longrightarrow> consistent (markLevel q l s)"
  by (simp add: consistent_def processed_markLevel keys_markLevel)

lemma mark_levels_le:
  assumes "consistent s" and "\<not> returnsEarly q l s"
  shows "levels_le s (markLevel q l s)"
proof -
  have "e \<le> l" if "level_of s (quest_id q) = Some e" for e
  proof -
    from that have "quest_id q \<in> fst ` set (levels s)"
      using level_of_None_iff [of s "quest_id q"] by simp
    with assms(1) have "quest_id q \<in> set (processed s)" by (simp add: consistent_def)
    with assms(2) that show ?thesis by (simp add: returnsEarly_def level_of_def)
  qed
  then show ?thesis by (auto simp: levels_le_def level_of_markLevel)
qed

lemma levels_le_refl: "levels_le s s"
  by (simp add: levels_le_def)

lemma levels_le_trans: "levels_le s t \<Longrightarrow> levels_le t u \<Longrightarrow> levels_le s u"
  unfolding levels_le_def by (meson order_trans)

lemma assignLevel_consistent_le:
  assumes "assignLevel d quests q l s = Some s'" and "consistent s"
  shows "consistent s' \<and> levels_le s s'"
  using assms(1)
proof (rule assignLevel_rule [where I = "\<lambda>t. consistent t \<and> levels_le s t" and pre = "\<lambda>q l s. True"])
  show "consistent s \<and> levels_le s s" using assms(2) by (simp add: levels_le_refl)
next
  fix q l t
  assume "consistent t \<and> levels_le s t" and "\<not> returnsEarly q l t"
  then show "consistent (markLevel q l t) \<and> levels_le s (markLevel q l t)"
    by (auto intro: mark_consistent levels_le_trans mark_levels_le)
qed simp_all

lemma sweepQuest_consistent_le:
  assumes "sweepQuest d quests q s = Some s'" and "consistent s"
  shows "consistent s' \<and> levels_le s s'"
proof (cases "sweepQuest d quests q s = Some s")
  case True
  with assms show ?thesis by (simp add: levels_le_refl)
next
  case False
  with assms(1) obtain l where "assignLevel d quests q l s = Some s'"
    by (auto simp: sweepQuest_def Let_def split: if_splits)
  then show ?thesis using assms(2) by (rule assignLevel_consistent_le)
qed

lemma sweepPass_consistent_le:
  assumes "forEach qs (sweepQuest d quests) s = Some s'" and "consistent s"
  shows "consistent s' \<and> levels_le s s'"
  using assms(1)
proof (rule forEach_inv [where I = "\<lambda>t. consistent t \<and> levels_le s t"])
  show "consistent s \<and> levels_le s s" using assms(2) by (simp add: levels_le_refl)
next
  fix a t t'
  assume "consistent t \<and> levels_le s t" and "sweepQuest d quests a t = Some t'"
  then show "consistent t' \<and> levels_le s t'"
    using sweepQuest_consistent_le [of d quests a t t'] by (auto intro: levels_le_trans)
qed

lemma fallbackSweep_consistent_le:
  "fallbackSweep d quests n s = Some s' \<Longrightarrow> consistent s \<Longrightarrow> consistent s' \<and> levels_le s s'"
proof (induction n arbitrary: s)
  case 0
  then show ?case by (simp add: levels_le_refl)
next
  case (Suc n)
  show ?case
  proof (cases "length (processed s) < length quests")
    case True
    with Suc.prems(1) obtain t where t: "forEach quests (sweepQuest d quests) s = Some t"
      and rest: "fallbackSweep d quests n t = Some s'"
      by (auto split: option.splits)
    from sweepPass_consistent_le [OF t Suc.prems(2)] have "consistent t" "levels_le s t" by simp_all
    with Suc.IH [OF rest] show ?thesis by (auto intro: levels_le_trans)
  next
    case False
    with Suc.prems show ?thesis by (simp add: levels_le_refl)
  qed
qed

lemma consistent_emptyState: "consistent emptyState"
  by (simp add: consistent_def emptyState_def)

lemma primaryPass_consistent:
  assumes "primaryPass d quests = Some s"
  shows "consistent s"
  using assms unfolding primaryPass_def
proof (rule forEach_inv [where I = consistent])
  show "consistent emptyState" by (rule consistent_emptyState)
next
  fix a t t'
  assume "consistent t" and "assignLevel d quests a 0 t = Some t'"
  then show "consistent t'" using assignLevel_consistent_le by blast
qed

subsection \<open>The rooted cycle\<close>

text \<open>
  On \<open>rootedCycle\<close> the calls of line 224 go from A to B and back to A, each with a
  level one higher than the last, so no test of line 211 ever stops them.
\<close>

lemma cyc_children:
  "childrenOf rootedCycle cycA = [cycB]" "childrenOf rootedCycle cycB = [cycA]"
  "childrenOf rootedCycle cycR = [cycA]"
  by (simp_all add: childrenOf_def rootedCycle_def) (simp_all add: cycA_def cycB_def cycR_def mkQuest_def)

lemma cyc_prereqLevels:
  "prereqLevelsOf s cycB = definedLevels [level_of s ''A'']"
  "prereqLevelsOf s cycA = definedLevels [level_of s ''R'', level_of s ''B'']"
  by (simp_all add: prereqLevelsOf_def cycA_def cycB_def mkQuest_def level_of_def)

lemma cyc_ids: "quest_id cycA = ''A''" "quest_id cycB = ''B''" "quest_id cycR = ''R''"
  "prerequisites cycA = [''R'', ''B'']" "prerequisites cycB = [''A'']" "prerequisites cycR = []"
  by (simp_all add: cycA_def cycB_def cycR_def mkQuest_def)

lemma returnsEarly_level_of:
  "returnsEarly q l s \<Longrightarrow> \<exists>e. level_of s (quest_id q) = Some e \<and> l \<le> e"
  by (auto simp: returnsEarly_def level_of_def split: option.splits)

lemma cycle_recursion_unbounded:
  assumes "level_of s ''R'' = Some 0"
  shows "(\<not> returnsEarly cycA l s \<longrightarrow> (\<forall>b. level_of s ''B'' = Some b \<longrightarrow> b < l)
            \<longrightarrow> assignLevel d rootedCycle cycA l s = None) \<and>
         (\<not> returnsEarly cycB l s \<longrightarrow> (\<exists>a. level_of s ''A'' = Some a \<and> a < l)
            \<longrightarrow> assignLevel d rootedCycle cycB l s = None)"
  using assms
proof (induction d arbitrary: l s)
  case 0
  then show ?case by simp
next
  case (Suc d)
  show ?case
  proof (intro conjI impI)
    assume ne: "\<not> returnsEarly cycA l s" and b: "\<forall>b. level_of s ''B'' = Some b \<longrightarrow> b < l"
    let ?s1 = "markLevel cycA l s"
    have r: "level_of ?s1 ''R'' = Some 0" using Suc.prems by (simp add: level_of_markLevel cyc_ids)
    have lb: "level_of ?s1 ''B'' = level_of s ''B''" by (simp add: level_of_markLevel cyc_ids)
    have la: "level_of ?s1 ''A'' = Some l" by (simp add: level_of_markLevel cyc_ids)
    have "\<not> returnsEarly cycB (l + 1) ?s1"
    proof
      assume "returnsEarly cycB (l + 1) ?s1"
      from returnsEarly_level_of [OF this] obtain e where "level_of ?s1 ''B'' = Some e" "l + 1 \<le> e"
        by (auto simp: cyc_ids)
      with lb have "level_of s ''B'' = Some e" by simp
      with b have "e < l" by blast
      with \<open>l + 1 \<le> e\<close> show False by simp
    qed
    with Suc.IH [OF r, of "l + 1"] la have "assignLevel d rootedCycle cycB (l + 1) ?s1 = None"
      by simp
    then have "visitChild (assignLevel d rootedCycle) cycB ?s1 = None"
      by (simp add: visitChild_def cyc_prereqLevels la cyc_ids math_max_def)
    then show "assignLevel (Suc d) rootedCycle cycA l s = None"
      using ne by (simp add: assignLevel_Suc cyc_children)
  next
    assume ne: "\<not> returnsEarly cycB l s" and a: "\<exists>a. level_of s ''A'' = Some a \<and> a < l"
    let ?s1 = "markLevel cycB l s"
    have r: "level_of ?s1 ''R'' = Some 0" using Suc.prems by (simp add: level_of_markLevel cyc_ids)
    have la: "level_of ?s1 ''A'' = level_of s ''A''" by (simp add: level_of_markLevel cyc_ids)
    have lb: "level_of ?s1 ''B'' = Some l" by (simp add: level_of_markLevel cyc_ids)
    have "\<not> returnsEarly cycA (l + 1) ?s1"
    proof
      assume "returnsEarly cycA (l + 1) ?s1"
      from returnsEarly_level_of [OF this] obtain e where "level_of ?s1 ''A'' = Some e" "l + 1 \<le> e"
        by (auto simp: cyc_ids)
      with la have "level_of s ''A'' = Some e" by simp
      with a have "e < l" by auto
      with \<open>l + 1 \<le> e\<close> show False by simp
    qed
    with Suc.IH [OF r, of "l + 1"] lb have "assignLevel d rootedCycle cycA (l + 1) ?s1 = None"
      by simp
    then have "visitChild (assignLevel d rootedCycle) cycA ?s1 = None"
      by (simp add: visitChild_def cyc_prereqLevels r lb cyc_ids math_max_def)
    then show "assignLevel (Suc d) rootedCycle cycB l s = None"
      using ne by (simp add: assignLevel_Suc cyc_children)
  qed
qed

lemma cyc_primary: "primaryPass (Suc d) rootedCycle = Some cycSeeded"
proof -
  have "roots rootedCycle = [cycR]"
    by (simp add: roots_def rootedCycle_def) (simp add: cycA_def cycB_def cycR_def mkQuest_def)
  moreover have "\<not> returnsEarly cycR 0 emptyState"
    by (simp add: returnsEarly_def emptyState_def)
  moreover have "markLevel cycR 0 emptyState = cycSeeded"
    by (simp add: markLevel_def emptyState_def cycSeeded_def cyc_ids set_add_def)
  moreover have "visitChild (assignLevel d rootedCycle) cycA cycSeeded = Some cycSeeded"
    by (simp add: visitChild_def cyc_prereqLevels cyc_ids) (simp add: level_of_def cycSeeded_def)
  ultimately show ?thesis
    by (simp add: primaryPass_def assignLevel_Suc cyc_children)
qed

lemma cyc_sweep: "forEach rootedCycle (sweepQuest d rootedCycle) cycSeeded = None"
proof -
  have r: "level_of cycSeeded ''R'' = Some 0" by (simp add: level_of_def cycSeeded_def)
  have "\<not> returnsEarly cycA 1 cycSeeded"
    by (simp add: returnsEarly_def cycSeeded_def cyc_ids)
  moreover have "level_of cycSeeded ''B'' = None" by (simp add: level_of_def cycSeeded_def)
  ultimately have "assignLevel d rootedCycle cycA 1 cycSeeded = None"
    using cycle_recursion_unbounded [OF r, of 1 d] by simp
  moreover have "prereqLevelsOf cycSeeded cycA = [0]"
    by (simp add: cyc_prereqLevels) (simp add: level_of_def cycSeeded_def)
  then have "sweepQuest d rootedCycle cycA cycSeeded = assignLevel d rootedCycle cycA 1 cycSeeded"
    by (simp add: sweepQuest_def prereqLevelsOf_def [symmetric] math_max_def cyc_ids)
       (simp add: cycSeeded_def math_max_def)
  moreover have "sweepQuest d rootedCycle cycR cycSeeded = Some cycSeeded"
    by (simp add: sweepQuest_def cyc_ids cycSeeded_def)
  ultimately show ?thesis by (simp add: rootedCycle_def [symmetric] ) (simp add: rootedCycle_def)
qed

subsection \<open>Grouping by level and placing the rows\<close>

lemma groupByLevel_snoc: "groupByLevel (lv @ [e]) = groupStep e (groupByLevel lv)"
  by (simp add: groupByLevel_def)

lemma map_of_snoc_fresh:
  "i \<notin> fst ` set lv \<Longrightarrow> map_of (lv @ [(i, l)]) j = (if j = i then Some l else map_of lv j)"
proof -
  assume "i \<notin> fst ` set lv"
  then have "map_of lv i = None" by (simp add: map_of_eq_None_iff)
  then show ?thesis by (auto simp: map_add_def split: option.splits)
qed

lemma grouped_step:
  assumes g: "grouped lv groups" and fresh: "i \<notin> fst ` set lv"
  shows "grouped (lv @ [(i, l)]) (groupStep (i, l) groups)"
proof -
  from g have dg: "distinct (map fst groups)" by (simp add: grouped_def)
  from g have mem: "\<And>l ids. (l, ids) \<in> set groups \<Longrightarrow>
      ids \<noteq> [] \<and> distinct ids \<and> (\<forall>i. i \<in> set ids \<longleftrightarrow> map_of lv i = Some l)"
    by (simp add: grouped_def)
  from g have cov: "\<And>i l. map_of lv i = Some l \<Longrightarrow> l \<in> fst ` set groups"
    by (simp add: grouped_def)
  have inone: "map_of lv i = None" using fresh by (simp add: map_of_eq_None_iff)
  let ?m = "\<lambda>j. if j = i then Some l else map_of lv j"
  have m: "map_of (lv @ [(i, l)]) = ?m" using map_of_snoc_fresh [OF fresh] by (intro ext) simp
  let ?new = "case map_of groups l of None \<Rightarrow> [i] | Some ids \<Rightarrow> ids @ [i]"
  have gs: "groupStep (i, l) groups = AList.update l ?new groups"
    by (simp add: groupStep_def split: option.splits)
  have d': "distinct (map fst (AList.update l ?new groups))" using dg by (rule distinct_update)
  have lookup: "map_of (AList.update l ?new groups) = (map_of groups)(l \<mapsto> ?new)"
    by (rule update_conv')
  have new: "?new \<noteq> [] \<and> distinct ?new \<and> (\<forall>j. j \<in> set ?new \<longleftrightarrow> ?m j = Some l)"
  proof (cases "map_of groups l")
    case None
    then have "l \<notin> fst ` set groups" by (simp add: map_of_eq_None_iff)
    with cov have "\<And>j. map_of lv j \<noteq> Some l" by blast
    with None show ?thesis by auto
  next
    case (Some ids)
    then have "(l, ids) \<in> set groups" by (rule map_of_SomeD)
    from mem [OF this] inone Some show ?thesis by auto
  qed
  have "ids \<noteq> [] \<and> distinct ids \<and> (\<forall>j. j \<in> set ids \<longleftrightarrow> ?m j = Some l')"
    if "(l', ids) \<in> set (AList.update l ?new groups)" for l' ids
  proof -
    from that d' have "map_of (AList.update l ?new groups) l' = Some ids" by simp
    then have c: "((map_of groups)(l \<mapsto> ?new)) l' = Some ids" by (simp only: lookup)
    show ?thesis
    proof (cases "l' = l")
      case True
      with c have "ids = ?new" by simp
      with new True show ?thesis by simp
    next
      case False
      with c have "map_of groups l' = Some ids" by simp
      then have "(l', ids) \<in> set groups" by (rule map_of_SomeD)
      from mem [OF this] False inone show ?thesis by auto
    qed
  qed
  moreover have "l' \<in> fst ` set (AList.update l ?new groups)" if "?m j = Some l'" for j l'
    using that cov [of j l'] by (auto simp: dom_update split: if_splits)
  ultimately show ?thesis unfolding grouped_def gs m using d' by blast
qed

lemma grouped_groupByLevel:
  "distinct (map fst lv) \<Longrightarrow> grouped lv (groupByLevel lv)"
proof (induction lv rule: rev_induct)
  case Nil
  then show ?case by (simp add: grouped_def groupByLevel_def)
next
  case (snoc e lv)
  obtain i l where e: "e = (i, l)" by (cases e)
  from snoc.prems e have "distinct (map fst lv)" and "i \<notin> fst ` set lv" by auto
  with snoc.IH have "grouped (lv @ [(i, l)]) (groupStep (i, l) (groupByLevel lv))"
    by (auto intro: grouped_step)
  with e show ?case by (simp add: groupByLevel_snoc)
qed


lemma placeRow_eq:
  "placeRow (l, ids) np =
     fold (\<lambda>(k, i). AList.update i (rowPosition l (length ids) k)) (enumerate 0 ids) np"
  by (simp add: placeRow_def rowPosition_def Let_def)

lemma fold_update_other:
  "j \<notin> set ids \<Longrightarrow>
   map_of (fold (\<lambda>(k, i). AList.update i (f k)) (enumerate n ids) np) j = map_of np j"
  by (induction ids arbitrary: n np) (auto simp: update_conv')

lemma fold_update_nth:
  "distinct ids \<Longrightarrow> k < length ids \<Longrightarrow>
   map_of (fold (\<lambda>(k, i). AList.update i (f k)) (enumerate n ids) np) (ids ! k) = Some (f (n + k))"
proof (induction ids arbitrary: n np k)
  case Nil
  then show ?case by simp
next
  case (Cons a ids)
  show ?case
  proof (cases k)
    case 0
    from Cons.prems have "a \<notin> set ids" by simp
    then show ?thesis using 0 by (simp add: fold_update_other update_conv')
  next
    case (Suc k')
    with Cons.prems have "distinct ids" "k' < length ids" by simp_all
    from Cons.IH [OF this] Suc show ?thesis by simp
  qed
qed

lemma fold_update_keys:
  "fst ` set (fold (\<lambda>(k, i). AList.update i (f k)) (enumerate n ids) np) = set ids \<union> fst ` set np"
  by (induction ids arbitrary: n np) (auto simp: dom_update)

lemma fold_update_distinct:
  "distinct (map fst np) \<Longrightarrow>
   distinct (map fst (fold (\<lambda>(k, i). AList.update i (f k)) (enumerate n ids) np))"
  by (induction ids arbitrary: n np) (auto simp: distinct_update)

lemma placeRows_other:
  "\<forall>g \<in> set gs. j \<notin> set (snd g) \<Longrightarrow> map_of (fold placeRow gs np) j = map_of np j"
proof (induction gs arbitrary: np)
  case Nil
  then show ?case by simp
next
  case (Cons g gs)
  obtain l ids where g: "g = (l, ids)" by (cases g)
  with Cons.prems have "j \<notin> set ids" by simp
  then have "map_of (placeRow g np) j = map_of np j" by (simp add: g placeRow_eq fold_update_other)
  with Cons show ?case by simp
qed

lemma placeRows_keys:
  "fst ` set (fold placeRow gs np) = (\<Union>g \<in> set gs. set (snd g)) \<union> fst ` set np"
proof (induction gs arbitrary: np)
  case Nil
  then show ?case by simp
next
  case (Cons g gs)
  obtain l ids where g: "g = (l, ids)" by (cases g)
  have "fst ` set (placeRow g np) = set ids \<union> fst ` set np"
    by (simp add: g placeRow_eq fold_update_keys)
  with Cons.IH [of "placeRow g np"] g show ?case by auto
qed

lemma placeRows_distinct:
  "distinct (map fst np) \<Longrightarrow> distinct (map fst (fold placeRow gs np))"
proof (induction gs arbitrary: np)
  case Nil
  then show ?case by simp
next
  case (Cons g gs)
  obtain l ids where g: "g = (l, ids)" by (cases g)
  from Cons.prems have "distinct (map fst (placeRow g np))"
    by (simp add: g placeRow_eq fold_update_distinct)
  from Cons.IH [OF this] show ?case by simp
qed

lemma placeRows_nth:
  assumes "distinct (map fst gs)"
    and "\<forall>g \<in> set gs. distinct (snd g)"
    and "\<forall>g \<in> set gs. \<forall>g' \<in> set gs. fst g \<noteq> fst g' \<longrightarrow> set (snd g) \<inter> set (snd g') = {}"
    and "(l, ids) \<in> set gs" and "k < length ids"
  shows "map_of (fold placeRow gs np) (ids ! k) = Some (rowPosition l (length ids) k)"
  using assms
proof (induction gs arbitrary: np)
  case Nil
  then show ?case by simp
next
  case (Cons g gs)
  show ?case
  proof (cases "g = (l, ids)")
    case True
    from Cons.prems(2) True have d: "distinct ids" by simp
    have here: "map_of (placeRow g np) (ids ! k) = Some (rowPosition l (length ids) k)"
      using fold_update_nth [OF d Cons.prems(5), of "rowPosition l (length ids)" 0 np]
      by (simp add: True placeRow_eq)
    have "\<forall>g' \<in> set gs. ids ! k \<notin> set (snd g')"
    proof
      fix g' assume g': "g' \<in> set gs"
      with Cons.prems(1) True have "fst g' \<noteq> l" by force
      with Cons.prems(3) True g' have "set ids \<inter> set (snd g') = {}" by force
      moreover have "ids ! k \<in> set ids" using Cons.prems(5) by simp
      ultimately show "ids ! k \<notin> set (snd g')" by blast
    qed
    from placeRows_other [OF this] here show ?thesis by simp
  next
    case False
    with Cons.prems(4) have "(l, ids) \<in> set gs" by simp
    moreover from Cons.prems(1) have "distinct (map fst gs)" by simp
    moreover from Cons.prems(2) have "\<forall>g \<in> set gs. distinct (snd g)" by simp
    moreover from Cons.prems(3)
    have "\<forall>g \<in> set gs. \<forall>g' \<in> set gs. fst g \<noteq> fst g' \<longrightarrow> set (snd g) \<inter> set (snd g') = {}"
      by simp
    ultimately have "map_of (fold placeRow gs (placeRow g np)) (ids ! k)
        = Some (rowPosition l (length ids) k)"
      using Cons.prems(5) Cons.IH by blast
    then show ?thesis by simp
  qed
qed

text \<open>Placement of a level map with distinct keys.\<close>

lemma layout_of_levels:
  assumes d: "distinct (map fst lv)"
  defines "groups \<equiv> groupByLevel lv"
  defines "pos \<equiv> fold placeRow groups []"
  shows "(l, ids) \<in> set groups \<Longrightarrow> k < length ids \<Longrightarrow>
           map_of pos (ids ! k) = Some (rowPosition l (length ids) k)"
    and "fst ` set pos = fst ` set lv"
    and "distinct (map fst pos)"
    and "map_of lv i = Some l \<Longrightarrow> \<exists>n k. map_of pos i = Some (rowPosition l n k)"
proof -
  have g: "grouped lv groups" unfolding groups_def using d by (rule grouped_groupByLevel)
  then have dg: "distinct (map fst groups)" by (simp add: grouped_def)
  from g have mem: "\<And>l ids. (l, ids) \<in> set groups \<Longrightarrow>
      ids \<noteq> [] \<and> distinct ids \<and> (\<forall>i. i \<in> set ids \<longleftrightarrow> map_of lv i = Some l)"
    by (simp add: grouped_def)
  from g have cov: "\<And>i l. map_of lv i = Some l \<Longrightarrow> l \<in> fst ` set groups"
    by (simp add: grouped_def)
  have dr: "\<forall>g \<in> set groups. distinct (snd g)" using mem by auto
  have dj: "\<forall>g \<in> set groups. \<forall>g' \<in> set groups.
              fst g \<noteq> fst g' \<longrightarrow> set (snd g) \<inter> set (snd g') = {}"
  proof (intro ballI impI)
    fix g g' assume "g \<in> set groups" "g' \<in> set groups" "fst g \<noteq> fst g'"
    then show "set (snd g) \<inter> set (snd g') = {}"
      using mem [of "fst g" "snd g"] mem [of "fst g'" "snd g'"] by auto
  qed
  show nth: "map_of pos (ids ! k) = Some (rowPosition l (length ids) k)"
    if "(l, ids) \<in> set groups" "k < length ids" for l ids k
    unfolding pos_def using dg dr dj that by (rule placeRows_nth)
  have "(\<Union>g \<in> set groups. set (snd g)) = fst ` set lv"
  proof (intro set_eqI iffI)
    fix i assume "i \<in> (\<Union>g \<in> set groups. set (snd g))"
    then obtain l ids where "(l, ids) \<in> set groups" "i \<in> set ids" by auto
    with mem have "map_of lv i = Some l" by blast
    then show "i \<in> fst ` set lv" using map_of_eq_None_iff [of lv i] by simp
  next
    fix i assume "i \<in> fst ` set lv"
    then obtain l where l: "map_of lv i = Some l" using map_of_eq_None_iff [of lv i] by auto
    from cov [OF l] obtain ids where in_g: "(l, ids) \<in> set groups" by auto
    with mem l have "i \<in> set ids" by blast
    with in_g show "i \<in> (\<Union>g \<in> set groups. set (snd g))" by force
  qed
  then show "fst ` set pos = fst ` set lv" unfolding pos_def by (simp add: placeRows_keys)
  show "distinct (map fst pos)" unfolding pos_def by (rule placeRows_distinct) simp
  show "\<exists>n k. map_of pos i = Some (rowPosition l n k)" if l: "map_of lv i = Some l"
  proof -
    from cov [OF l] obtain ids where in_g: "(l, ids) \<in> set groups" by auto
    with mem l have "i \<in> set ids" by blast
    then obtain k where "k < length ids" "ids ! k = i" by (auto simp: in_set_conv_nth)
    with nth [OF in_g] show ?thesis by auto
  qed
qed

subsection \<open>Proof rules for the two passes\<close>

lemma sweepQuest_cases:
  assumes "sweepQuest d quests q s = Some s'"
  obtains (skip) "s' = s"
  | (none) "quest_id q \<notin> set (processed s)" "prerequisites q = []"
      "assignLevel d quests q 0 s = Some s'"
  | (some) "quest_id q \<notin> set (processed s)" "prereqLevelsOf s q \<noteq> []"
      "assignLevel d quests q (math_max (prereqLevelsOf s q) + 1) s = Some s'"
proof (cases "quest_id q \<notin> set (processed s)")
  case False
  with assms have "s' = s" by (simp add: sweepQuest_def)
  then show ?thesis by (rule skip)
next
  case unp: True
  show ?thesis
  proof (cases "prereqLevelsOf s q = []")
    case True
    show ?thesis
    proof (cases "prerequisites q = []")
      case True
      with unp assms \<open>prereqLevelsOf s q = []\<close> have "assignLevel d quests q 0 s = Some s'"
        by (simp add: sweepQuest_def prereqLevelsOf_def)
      with unp True show ?thesis by (rule none)
    next
      case False
      with unp assms \<open>prereqLevelsOf s q = []\<close> have "s' = s"
        by (simp add: sweepQuest_def prereqLevelsOf_def)
      then show ?thesis by (rule skip)
    qed
  next
    case False
    with unp assms
    have "assignLevel d quests q (math_max (prereqLevelsOf s q) + 1) s = Some s'"
      by (simp add: sweepQuest_def prereqLevelsOf_def)
    with unp False show ?thesis by (rule some)
  qed
qed

text \<open>
  In these rules \<open>call\<close> says that a call of \<open>assignLevel\<close> that meets \<open>pre\<close> and
  returns keeps \<open>I\<close>; the other premises say that the calls of lines 230 and 240 meet
  \<open>pre\<close>.
\<close>

lemma primaryPass_rule:
  assumes run: "primaryPass d quests = Some s'"
    and init: "I emptyState"
    and call: "\<And>q l s t. I s \<Longrightarrow> pre q l s \<Longrightarrow> assignLevel d quests q l s = Some t \<Longrightarrow> I t"
    and root: "\<And>q s. I s \<Longrightarrow> q \<in> set quests \<Longrightarrow> unlockMilestone q \<Longrightarrow> prerequisites q = []
                  \<Longrightarrow> pre q 0 s"
  shows "I s'"
  using run [unfolded primaryPass_def] init
proof (rule forEach_inv)
  fix a t t'
  assume a: "a \<in> set (roots quests)" and t: "I t" and r: "assignLevel d quests a 0 t = Some t'"
  from a have "pre a 0 t" by (intro root [OF t]) (auto simp: roots_def)
  with t show "I t'" using r by (rule call)
qed

lemma sweepPass_rule:
  assumes run: "forEach qs (sweepQuest d quests) s = Some s'"
    and sub: "set qs \<subseteq> set quests"
    and init: "I s"
    and call: "\<And>q l s t. I s \<Longrightarrow> pre q l s \<Longrightarrow> assignLevel d quests q l s = Some t \<Longrightarrow> I t"
    and sweep0: "\<And>q s. I s \<Longrightarrow> q \<in> set quests \<Longrightarrow> quest_id q \<notin> set (processed s)
                  \<Longrightarrow> prerequisites q = [] \<Longrightarrow> pre q 0 s"
    and sweep1: "\<And>q s. I s \<Longrightarrow> q \<in> set quests \<Longrightarrow> quest_id q \<notin> set (processed s)
                  \<Longrightarrow> prereqLevelsOf s q \<noteq> [] \<Longrightarrow> pre q (math_max (prereqLevelsOf s q) + 1) s"
  shows "I s'"
  using run init
proof (rule forEach_inv)
  fix a t t'
  assume a: "a \<in> set qs" and t: "I t" and r: "sweepQuest d quests a t = Some t'"
  from a sub have aq: "a \<in> set quests" by auto
  from r show "I t'"
  proof (cases rule: sweepQuest_cases)
    case skip
    with t show ?thesis by simp
  next
    case none
    from t sweep0 [OF t aq none(1,2)] none(3) show ?thesis by (rule call)
  next
    case some
    from t sweep1 [OF t aq some(1,2)] some(3) show ?thesis by (rule call)
  qed
qed

lemma fallbackSweep_rule:
  assumes run: "fallbackSweep d quests n s = Some s'"
    and init: "I s"
    and call: "\<And>q l s t. I s \<Longrightarrow> pre q l s \<Longrightarrow> assignLevel d quests q l s = Some t \<Longrightarrow> I t"
    and sweep0: "\<And>q s. I s \<Longrightarrow> q \<in> set quests \<Longrightarrow> quest_id q \<notin> set (processed s)
                  \<Longrightarrow> prerequisites q = [] \<Longrightarrow> pre q 0 s"
    and sweep1: "\<And>q s. I s \<Longrightarrow> q \<in> set quests \<Longrightarrow> quest_id q \<notin> set (processed s)
                  \<Longrightarrow> prereqLevelsOf s q \<noteq> [] \<Longrightarrow> pre q (math_max (prereqLevelsOf s q) + 1) s"
  shows "I s'"
  using run init
proof (induction n arbitrary: s)
  case 0
  then show ?case by simp
next
  case (Suc n)
  show ?case
  proof (cases "length (processed s) < length quests")
    case True
    with Suc.prems(1) obtain t where t: "forEach quests (sweepQuest d quests) s = Some t"
      and rest: "fallbackSweep d quests n t = Some s'"
      by (auto split: option.splits)
    have "I t"
      by (rule sweepPass_rule [where I = I and pre = pre, OF t subset_refl Suc.prems(2)])
         (fact call, fact sweep0, fact sweep1)
    with rest show ?thesis by (rule Suc.IH)
  next
    case False
    with Suc.prems show ?thesis by simp
  qed
qed

lemma computeLevels_rule:
  assumes run: "computeLevels d quests = Some s'"
    and init: "I emptyState"
    and call: "\<And>q l s t. I s \<Longrightarrow> pre q l s \<Longrightarrow> assignLevel d quests q l s = Some t \<Longrightarrow> I t"
    and root: "\<And>q s. I s \<Longrightarrow> q \<in> set quests \<Longrightarrow> unlockMilestone q \<Longrightarrow> prerequisites q = []
                  \<Longrightarrow> pre q 0 s"
    and sweep0: "\<And>q s. I s \<Longrightarrow> q \<in> set quests \<Longrightarrow> quest_id q \<notin> set (processed s)
                  \<Longrightarrow> prerequisites q = [] \<Longrightarrow> pre q 0 s"
    and sweep1: "\<And>q s. I s \<Longrightarrow> q \<in> set quests \<Longrightarrow> quest_id q \<notin> set (processed s)
                  \<Longrightarrow> prereqLevelsOf s q \<noteq> [] \<Longrightarrow> pre q (math_max (prereqLevelsOf s q) + 1) s"
  shows "I s'"
proof -
  from run obtain t where t: "primaryPass d quests = Some t"
    and rest: "fallbackSweep d quests 10 t = Some s'"
    by (auto simp: computeLevels_def split: option.splits)
  have "I t"
    by (rule primaryPass_rule [where I = I and pre = pre, OF t init]) (fact call, fact root)
  with rest show ?thesis
    by (rule fallbackSweep_rule [where I = I and pre = pre])
       (fact call, fact sweep0, fact sweep1)
qed

lemma mark_wellformed:
  assumes "wellformed quests s" and "q \<in> set quests"
  shows "wellformed quests (markLevel q l s)"
proof -
  have "distinct (map fst (levels (markLevel q l s)))"
    using assms(1) by (simp add: wellformed_def markLevel_def distinct_update)
  moreover have "distinct (processed (markLevel q l s))"
    using assms(1) by (simp add: wellformed_def markLevel_def set_add_def)
  moreover have "consistent (markLevel q l s)"
    using assms(1) by (simp add: wellformed_def mark_consistent)
  moreover have "fst ` set (levels (markLevel q l s)) \<subseteq> quest_id ` set quests"
    using assms by (auto simp: wellformed_def keys_markLevel)
  ultimately show ?thesis by (simp add: wellformed_def)
qed

lemma wellformed_emptyState: "wellformed quests emptyState"
  by (simp add: wellformed_def consistent_def emptyState_def)

lemma assignLevel_wellformed:
  assumes "assignLevel d quests q l s = Some s'" and "wellformed quests s" and "q \<in> set quests"
  shows "wellformed quests s'"
  using assms
  by (rule assignLevel_rule [where pre = "\<lambda>q l s. q \<in> set quests"])
     (simp_all add: mark_wellformed)

lemma primaryPass_wellformed:
  assumes "primaryPass d quests = Some s"
  shows "wellformed quests s"
  using assms wellformed_emptyState
  by (rule primaryPass_rule [where pre = "\<lambda>q l s. q \<in> set quests"])
     (auto intro: assignLevel_wellformed)

lemma fallbackSweep_wellformed:
  assumes "fallbackSweep d quests n s = Some s'" and "wellformed quests s"
  shows "wellformed quests s'"
  using assms
  by (rule fallbackSweep_rule [where pre = "\<lambda>q l s. q \<in> set quests"])
     (auto intro: assignLevel_wellformed)

lemma computeLevels_wellformed:
  assumes "computeLevels d quests = Some s"
  shows "wellformed quests s"
  using assms wellformed_emptyState
  by (rule computeLevels_rule [where pre = "\<lambda>q l s. q \<in> set quests"])
     (auto intro: assignLevel_wellformed)

lemma calculateLayout_Some:
  assumes "calculateLayout depth quests np = Some (r, pos)"
  obtains s where "computeLevels depth quests = Some s"
    and "levelGroups r = groupByLevel (levels s)"
    and "pos = fold placeRow (groupByLevel (levels s)) []"
    and "maxLevel r = math_max_keys (map fst (groupByLevel (levels s)))"
  using assms by (auto simp: calculateLayout_def Let_def split: option.splits)

subsection \<open>Which quests get a level\<close>

lemma levels_le_hasLevel: "levels_le s t \<Longrightarrow> hasLevel s i \<Longrightarrow> hasLevel t i"
  by (auto simp: levels_le_def hasLevel_def)

lemma visitChildren_consistent_le:
  assumes "forEach cs (visitChild (assignLevel d quests)) s = Some s'" and "consistent s"
  shows "consistent s' \<and> levels_le s s'"
  using assms(1)
proof (rule forEach_inv [where I = "\<lambda>t. consistent t \<and> levels_le s t"])
  show "consistent s \<and> levels_le s s" using assms(2) by (simp add: levels_le_refl)
next
  fix a t t'
  assume t: "consistent t \<and> levels_le s t"
    and v: "visitChild (assignLevel d quests) a t = Some t'"
  show "consistent t' \<and> levels_le s t'"
  proof (cases "t' = t")
    case True
    with t show ?thesis by simp
  next
    case False
    with v obtain l where "assignLevel d quests a l t = Some t'"
      by (auto simp: visitChild_def split: if_splits)
    from assignLevel_consistent_le [OF this] t show ?thesis by (auto intro: levels_le_trans)
  qed
qed

lemma assignLevel_leveled:
  assumes "assignLevel d quests q l s = Some s'" and "consistent s"
  shows "\<exists>e. level_of s' (quest_id q) = Some e \<and> l \<le> e"
proof (cases d)
  case 0
  with assms show ?thesis by simp
next
  case (Suc d')
  show ?thesis
  proof (cases "returnsEarly q l s")
    case True
    with assms Suc have "s' = s" by (simp add: assignLevel_Suc)
    with returnsEarly_level_of [OF True] show ?thesis by simp
  next
    case False
    with assms Suc
    have "forEach (childrenOf quests q) (visitChild (assignLevel d' quests)) (markLevel q l s) = Some s'"
      by (simp add: assignLevel_Suc)
    from visitChildren_consistent_le [OF this mark_consistent [OF assms(2)]]
    have "levels_le (markLevel q l s) s'" by simp
    moreover have "level_of (markLevel q l s) (quest_id q) = Some l"
      by (simp add: level_of_markLevel)
    ultimately show ?thesis by (auto simp: levels_le_def)
  qed
qed

lemma consistent_processed: "consistent s \<Longrightarrow> i \<in> set (processed s) \<longleftrightarrow> hasLevel s i"
  by (simp add: consistent_def hasLevel_def level_of_None_iff)

text \<open>Each element of the list is served by its own turn, and later turns keep it so.\<close>

lemma forEach_all:
  assumes "forEach xs f s = Some s'" and "I s"
    and step: "\<And>a t t'. a \<in> set xs \<Longrightarrow> I t \<Longrightarrow> f a t = Some t' \<Longrightarrow> I t' \<and> P a t'"
    and keep: "\<And>a b t t'. b \<in> set xs \<Longrightarrow> I t \<Longrightarrow> P a t \<Longrightarrow> f b t = Some t' \<Longrightarrow> P a t'"
  shows "I s' \<and> (\<forall>a \<in> set xs. P a s')"
  using assms
proof (induction xs arbitrary: s)
  case Nil
  from Nil(1) have "s' = s" by simp
  with Nil(2) show ?case by simp
next
  case (Cons b bs)
  from Cons.prems(1) obtain t where t: "f b s = Some t" and rest: "forEach bs f t = Some s'"
    by (auto split: option.splits)
  have b: "b \<in> set (b # bs)" by simp
  have tl: "a \<in> set (b # bs)" if "a \<in> set bs" for a using that by simp
  from Cons.prems(3) [OF b Cons.prems(2) t] have it: "I t" and pb: "P b t"
    by (rule conjunct1, rule conjunct2)
  have ih: "I s' \<and> (\<forall>a \<in> set bs. P a s')"
  proof (rule Cons.IH [OF rest it])
    fix a u u' assume "a \<in> set bs" "I u" "f a u = Some u'"
    then show "I u' \<and> P a u'" by (rule Cons.prems(3) [OF tl])
  next
    fix a c u u' assume "c \<in> set bs" "I u" "P a u" "f c u = Some u'"
    then show "P a u'" by (rule Cons.prems(4) [OF tl])
  qed
  have "I s' \<and> P b s'"
    using rest
  proof (rule forEach_inv [where I = "\<lambda>u. I u \<and> P b u"])
    show "I t \<and> P b t" using it pb by (rule conjI)
  next
    fix a u u' assume a: "a \<in> set bs" and u: "I u \<and> P b u" and f: "f a u = Some u'"
    from u have iu: "I u" and pu: "P b u" by (rule conjunct1, rule conjunct2)
    have "I u'" using Cons.prems(3) [OF tl [OF a] iu f] by (rule conjunct1)
    moreover have "P b u'" by (rule Cons.prems(4) [OF tl [OF a] iu pu f])
    ultimately show "I u' \<and> P b u'" by (rule conjI)
  qed
  with ih show ?case by auto
qed

lemma primaryPass_roots_leveled:
  assumes "primaryPass d quests = Some s" and "q \<in> set (roots quests)"
  shows "hasLevel s (quest_id q)"
proof -
  have "consistent s \<and> (\<forall>a \<in> set (roots quests). hasLevel s (quest_id a))"
    using assms(1) [unfolded primaryPass_def] consistent_emptyState
  proof (rule forEach_all)
    fix a t t' assume "consistent t" and r: "assignLevel d quests a 0 t = Some t'"
    with assignLevel_consistent_le [OF r] assignLevel_leveled [OF r]
    show "consistent t' \<and> hasLevel t' (quest_id a)" by (auto simp: hasLevel_def)
  next
    fix a b t t' assume "consistent t" "hasLevel t (quest_id a)"
      and r: "assignLevel d quests b 0 t = Some t'"
    with assignLevel_consistent_le [OF r] show "hasLevel t' (quest_id a)"
      by (auto intro: levels_le_hasLevel)
  qed
  with assms(2) show ?thesis by simp
qed

lemma sweepQuest_processes:
  assumes "sweepQuest d quests q s = Some s'" and "consistent s" and "prerequisites q = []"
  shows "hasLevel s' (quest_id q)"
proof (cases "quest_id q \<in> set (processed s)")
  case True
  with assms have "s' = s" by (simp add: sweepQuest_def)
  with True assms(2) show ?thesis by (simp add: consistent_processed)
next
  case False
  with assms have r: "assignLevel d quests q 0 s = Some s'"
    by (simp add: sweepQuest_def)
  from assignLevel_leveled [OF r assms(2)] show ?thesis by (auto simp: hasLevel_def)
qed

lemma sweepPass_processes:
  assumes "forEach quests (sweepQuest d quests) s = Some s'" and "consistent s"
    and "q \<in> set quests" and "prerequisites q = []"
  shows "hasLevel s' (quest_id q)"
proof -
  have "consistent s' \<and>
        (\<forall>a \<in> set quests. prerequisites a = [] \<longrightarrow> hasLevel s' (quest_id a))"
    using assms(1,2)
  proof (rule forEach_all)
    fix a t t' assume "consistent t" and r: "sweepQuest d quests a t = Some t'"
    with sweepQuest_consistent_le [OF r] sweepQuest_processes [OF r]
    show "consistent t' \<and> (prerequisites a = [] \<longrightarrow> hasLevel t' (quest_id a))" by simp
  next
    fix a b t t' assume "consistent t" "prerequisites a = [] \<longrightarrow> hasLevel t (quest_id a)"
      and r: "sweepQuest d quests b t = Some t'"
    with sweepQuest_consistent_le [OF r]
    show "prerequisites a = [] \<longrightarrow> hasLevel t' (quest_id a)"
      by (auto intro: levels_le_hasLevel)
  qed
  with assms(3,4) show ?thesis by simp
qed

lemma all_processed:
  assumes "wellformed quests s" and "\<not> length (processed s) < length quests"
    and "q \<in> set quests"
  shows "hasLevel s (quest_id q)"
proof -
  have sub: "set (processed s) \<subseteq> quest_id ` set quests"
    using assms(1) by (simp add: wellformed_def consistent_def)
  have "card (quest_id ` set quests) \<le> card (set quests)"
    by (rule card_image_le) simp
  also have "\<dots> \<le> length quests" by (rule card_length)
  also have "\<dots> \<le> length (processed s)" using assms(2) by simp
  also have "\<dots> = card (set (processed s))"
    using assms(1) by (simp add: wellformed_def distinct_card)
  finally have "set (processed s) = quest_id ` set quests"
    using sub by (intro card_seteq) simp_all
  with assms(1,3) show ?thesis by (simp add: wellformed_def consistent_processed [symmetric])
qed

lemma fallbackSweep_prereq_free:
  assumes "fallbackSweep d quests (Suc n) s = Some s'" and "wellformed quests s"
    and "q \<in> set quests" and "prerequisites q = []"
  shows "hasLevel s' (quest_id q)"
proof (cases "length (processed s) < length quests")
  case True
  with assms(1) obtain t where t: "forEach quests (sweepQuest d quests) s = Some t"
    and rest: "fallbackSweep d quests n t = Some s'"
    by (auto split: option.splits)
  from assms(2) have c: "consistent s" by (simp add: wellformed_def)
  from sweepPass_processes [OF t c assms(3,4)] have "hasLevel t (quest_id q)" .
  moreover from sweepPass_consistent_le [OF t c] have "consistent t" by simp
  from fallbackSweep_consistent_le [OF rest this] have "levels_le t s'" by simp
  ultimately show ?thesis by (rule levels_le_hasLevel [rotated])
next
  case False
  with assms(1) have "s' = s" by simp
  with all_processed [OF assms(2) False assms(3)] show ?thesis by simp
qed

lemma computeLevels_prereq_free:
  assumes "computeLevels d quests = Some s" and "q \<in> set quests" and "prerequisites q = []"
  shows "hasLevel s (quest_id q)"
proof -
  have ten: "(10::nat) = Suc 9" by simp
  from assms(1) obtain t where t: "primaryPass d quests = Some t"
    and rest: "fallbackSweep d quests (Suc 9) t = Some s"
    unfolding computeLevels_def ten by (auto split: option.splits)
  from rest primaryPass_wellformed [OF t] assms(2,3) show ?thesis
    by (rule fallbackSweep_prereq_free)
qed


lemma unique_quest:
  "distinct (map quest_id quests) \<Longrightarrow> q \<in> set quests \<Longrightarrow> q' \<in> set quests \<Longrightarrow>
   quest_id q' = quest_id q \<Longrightarrow> q' = q"
  by (auto simp: distinct_map dest: inj_onD)

lemma allLeveled_max:
  assumes "allLeveled s c" and "prerequisites c \<noteq> []"
  shows "\<exists>p \<in> set (prerequisites c). level_of s p = Some (math_max (prereqLevelsOf s c))"
proof -
  from assms(1) have "length (prereqLevelsOf s c) = length (prerequisites c)"
    by (simp add: prereqLevels_full)
  with assms(2) have "prereqLevelsOf s c \<noteq> []" by auto
  from math_max_in [OF this] show ?thesis by (simp add: set_prereqLevelsOf)
qed

lemma prereqLevels_max:
  assumes "prereqLevelsOf s q \<noteq> []"
  shows "\<exists>p \<in> set (prerequisites q). level_of s p = Some (math_max (prereqLevelsOf s q))"
  using math_max_in [OF assms] by (simp add: set_prereqLevelsOf)

subsection \<open>What the primary pass assigns\<close>

lemma assignLevel_seededOnly:
  assumes "assignLevel d quests q l s = Some s'" and "seededOnly quests s"
    and "q \<in> set quests \<and> (if prerequisites q = [] then unlockMilestone q \<and> l = 0 else 0 < l)"
  shows "seededOnly quests s'"
  using assms
proof (rule assignLevel_rule)
  fix q and l :: nat and s
  assume "seededOnly quests s"
    and "q \<in> set quests \<and> (if prerequisites q = [] then unlockMilestone q \<and> l = 0 else 0 < l)"
  then show "seededOnly quests (markLevel q l s)"
    unfolding seededOnly_def level_of_markLevel by (metis option.inject)
qed simp

lemma primaryPass_seededOnly:
  assumes "primaryPass d quests = Some s"
  shows "seededOnly quests s"
  using assms
proof (rule primaryPass_rule [where pre = "\<lambda>q l s. q \<in> set quests \<and>
          (if prerequisites q = [] then unlockMilestone q \<and> l = 0 else 0 < l)"])
  show "seededOnly quests emptyState" by (simp add: seededOnly_def level_of_def emptyState_def)
qed (auto intro: assignLevel_seededOnly)

subsection \<open>Every level has a reason\<close>

lemma mark_justified:
  assumes j: "justified quests s" and ne: "\<not> returnsEarly q l s"
    and pre: "q \<in> set quests \<and> (if prerequisites q = [] then l = 0
               else \<exists>p \<in> set (prerequisites q). \<exists>e. level_of s p = Some e \<and> l \<le> e + 1)"
  shows "justified quests (markLevel q l s)"
proof -
  let ?s1 = "markLevel q l s"
  from j have c: "consistent s" by (simp add: justified_def)
  from mark_levels_le [OF c ne] have le: "levels_le s ?s1" .
  have lift: "\<exists>p \<in> set ps. \<exists>e. level_of ?s1 p = Some e \<and> k \<le> e + 1"
    if "\<exists>p \<in> set ps. \<exists>e. level_of s p = Some e \<and> k \<le> e + 1" for ps k
  proof -
    from that obtain p e where p: "p \<in> set ps" "level_of s p = Some e" "k \<le> e + 1" by auto
    from le p(2) obtain e' where "level_of ?s1 p = Some e'" "e \<le> e'" by (auto simp: levels_le_def)
    with p show ?thesis by (intro bexI [of _ p] exI [of _ e']) auto
  qed
  have "\<exists>c \<in> set quests. quest_id c = i \<and>
          (if prerequisites c = [] then k = 0
           else \<exists>p \<in> set (prerequisites c). \<exists>e. level_of ?s1 p = Some e \<and> k \<le> e + 1)"
    if k: "level_of ?s1 i = Some k" for i k
  proof (cases "i = quest_id q")
    case True
    with k have "k = l" by (simp add: level_of_markLevel)
    with pre True lift [of "prerequisites q" l] show ?thesis
      by (intro bexI [of _ q]) (auto split: if_splits)
  next
    case False
    with k have "level_of s i = Some k" by (simp add: level_of_markLevel)
    with j obtain c where c: "c \<in> set quests" "quest_id c = i"
      "if prerequisites c = [] then k = 0
       else \<exists>p \<in> set (prerequisites c). \<exists>e. level_of s p = Some e \<and> k \<le> e + 1"
      unfolding justified_def by blast
    with lift [of "prerequisites c" k] show ?thesis
      by (intro bexI [of _ c]) (auto split: if_splits)
  qed
  with mark_consistent [OF c] show ?thesis unfolding justified_def by blast
qed

lemma assignLevel_justified:
  assumes "assignLevel d quests q l s = Some s'" and "justified quests s"
    and "q \<in> set quests \<and> (if prerequisites q = [] then l = 0
               else \<exists>p \<in> set (prerequisites q). \<exists>e. level_of s p = Some e \<and> l \<le> e + 1)"
  shows "justified quests s'"
  using assms
proof (rule assignLevel_rule)
  fix c s
  assume "c \<in> set quests" "prerequisites c \<noteq> []" "allLeveled s c"
  with allLeveled_max [of s c]
  show "c \<in> set quests \<and> (if prerequisites c = [] then math_max (prereqLevelsOf s c) + 1 = 0
          else \<exists>p \<in> set (prerequisites c). \<exists>e. level_of s p = Some e \<and>
                 math_max (prereqLevelsOf s c) + 1 \<le> e + 1)"
    by auto
qed (rule mark_justified)

lemma justified_emptyState: "justified quests emptyState"
  by (simp add: justified_def consistent_emptyState) (simp add: level_of_def emptyState_def)

lemma computeLevels_justified:
  assumes "computeLevels d quests = Some s"
  shows "justified quests s"
  using assms justified_emptyState
proof (rule computeLevels_rule [where pre = "\<lambda>q l s. q \<in> set quests \<and>
          (if prerequisites q = [] then l = 0
           else \<exists>p \<in> set (prerequisites q). \<exists>e. level_of s p = Some e \<and> l \<le> e + 1)"])
  fix q s
  assume "q \<in> set quests" "prereqLevelsOf s q \<noteq> []"
  with prereqLevels_max [of s q] prereqLevelsOf_Nil [of q s]
  show "q \<in> set quests \<and> (if prerequisites q = [] then math_max (prereqLevelsOf s q) + 1 = 0
          else \<exists>p \<in> set (prerequisites q). \<exists>e. level_of s p = Some e \<and>
                 math_max (prereqLevelsOf s q) + 1 \<le> e + 1)"
    by auto
qed (auto intro: assignLevel_justified)

subsection \<open>Positions and levels have the same keys\<close>



subsection \<open>A quest whose prerequisites are all unknown\<close>

lemma leveled_known:
  assumes "wellformed quests s" and "level_of s p = Some e"
  shows "p \<in> quest_id ` set quests"
proof -
  from assms(2) have "p \<in> fst ` set (levels s)" using level_of_None_iff [of s p] by simp
  with assms(1) show ?thesis by (auto simp: wellformed_def)
qed

lemma assignLevel_avoiding:
  assumes "assignLevel d quests q l s = Some s'" and "avoiding x quests s"
    and "q \<in> set quests \<and> quest_id q \<noteq> x"
    and blocked: "\<forall>c \<in> set quests. quest_id c = x \<longrightarrow>
           prerequisites c \<noteq> [] \<and> set (prerequisites c) \<inter> quest_id ` set quests = {}"
  shows "avoiding x quests s'"
  using assms(1-3)
proof (rule assignLevel_rule)
  fix q and l :: nat and s
  assume "avoiding x quests s" and "q \<in> set quests \<and> quest_id q \<noteq> x"
  then show "avoiding x quests (markLevel q l s)"
    by (auto simp: avoiding_def mark_wellformed hasLevel_def level_of_markLevel)
next
  fix c s
  assume a: "avoiding x quests s" and c: "c \<in> set quests" "prerequisites c \<noteq> []"
    and al: "allLeveled s c"
  from allLeveled_max [OF al c(2)] obtain p where p: "p \<in> set (prerequisites c)"
    "level_of s p = Some (math_max (prereqLevelsOf s c))" by auto
  from a have "wellformed quests s" by (simp add: avoiding_def)
  from leveled_known [OF this p(2)] p(1) blocked c(1) have "quest_id c \<noteq> x" by blast
  with c(1) show "c \<in> set quests \<and> quest_id c \<noteq> x" by simp
qed

lemma computeLevels_avoiding:
  assumes "computeLevels d quests = Some s"
    and blocked: "\<forall>c \<in> set quests. quest_id c = x \<longrightarrow>
           prerequisites c \<noteq> [] \<and> set (prerequisites c) \<inter> quest_id ` set quests = {}"
  shows "avoiding x quests s"
  using assms(1)
proof (rule computeLevels_rule [where pre = "\<lambda>q l s. q \<in> set quests \<and> quest_id q \<noteq> x"])
  show "avoiding x quests emptyState"
    by (simp add: avoiding_def wellformed_emptyState hasLevel_def)
       (simp add: level_of_def emptyState_def)
next
  fix q l s t
  assume a: "avoiding x quests s" and p: "q \<in> set quests \<and> quest_id q \<noteq> x"
    and r: "assignLevel d quests q l s = Some t"
  show "avoiding x quests t" by (rule assignLevel_avoiding [OF r a p blocked])
next
  fix q s assume "q \<in> set quests" "prerequisites q = []"
  with blocked show "q \<in> set quests \<and> quest_id q \<noteq> x" by auto
next
  fix q s assume "q \<in> set quests" "prerequisites q = []"
  with blocked show "q \<in> set quests \<and> quest_id q \<noteq> x" by auto
next
  fix q s
  assume a: "avoiding x quests s" and q: "q \<in> set quests" and ne: "prereqLevelsOf s q \<noteq> []"
  from prereqLevels_max [OF ne] obtain p where p: "p \<in> set (prerequisites q)"
    "level_of s p = Some (math_max (prereqLevelsOf s q))" by auto
  from a have "wellformed quests s" by (simp add: avoiding_def)
  from leveled_known [OF this p(2)] p(1) blocked q have "quest_id q \<noteq> x" by blast
  with q show "q \<in> set quests \<and> quest_id q \<noteq> x" by simp
qed

subsection \<open>Every quest ends above its prerequisites\<close>

lemma settled_mono: "settled quests D s \<Longrightarrow> D \<subseteq> D' \<Longrightarrow> settled quests D' s"
  by (auto simp: settled_def)

lemma callOk_max: "callOk q (math_max (prereqLevelsOf s q) + 1) s"
proof -
  have "e < math_max (prereqLevelsOf s q) + 1"
    if "p \<in> set (prerequisites q)" "level_of s p = Some e" for p e
  proof -
    from that have "e \<in> set (prereqLevelsOf s q)" by (auto simp: set_prereqLevelsOf)
    from math_max_ge [OF this] show ?thesis by simp
  qed
  then show ?thesis by (simp add: callOk_def)
qed

lemma callOk_max_Suc: "callOk q (Suc (math_max (prereqLevelsOf s q))) s"
  using callOk_max [of q s] by simp

lemma callOk_Nil: "prerequisites q = [] \<Longrightarrow> callOk q l s"
  by (simp add: callOk_def)

lemma not_child_same:
  assumes "quest_id q \<notin> set (prerequisites c)"
  shows "allLeveled (markLevel q l s) c = allLeveled s c"
    and "p \<in> set (prerequisites c) \<Longrightarrow> level_of (markLevel q l s) p = level_of s p"
  using assms by (auto simp: allLeveled_def level_of_markLevel)

lemma mark_settled:
  assumes dq: "distinct (map quest_id quests)" and q: "q \<in> set quests"
    and st: "settled quests D s" and ok: "callOk q l s"
  shows "settled quests ((D - {quest_id q}) \<union> quest_id ` set (childrenOf quests q))
           (markLevel q l s)"
proof -
  let ?s1 = "markLevel q l s"
  from st have "consistent ?s1" by (simp add: settled_def mark_consistent)
  moreover have "aboveParents ?s1 c"
    if c: "c \<in> set quests"
      and out: "quest_id c \<notin> (D - {quest_id q}) \<union> quest_id ` set (childrenOf quests q)" for c
  proof -
    from out c have nc: "quest_id q \<notin> set (prerequisites c)"
      by (auto simp: childrenOf_def)
    note same = not_child_same [OF nc, where l = l and s = s]
    show ?thesis
    proof (cases "quest_id c = quest_id q")
      case True
      from unique_quest [OF dq q c True] have cq: "c = q" .
      from ok same show ?thesis
        unfolding aboveParents_def callOk_def cq by (simp add: level_of_markLevel)
    next
      case False
      with out have "quest_id c \<notin> D" by simp
      with st c have "aboveParents s c" by (simp add: settled_def)
      with False same show ?thesis
        unfolding aboveParents_def by (simp add: level_of_markLevel)
    qed
  qed
  ultimately show ?thesis by (simp add: settled_def)
qed

lemma early_settled:
  assumes dq: "distinct (map quest_id quests)" and q: "q \<in> set quests"
    and st: "settled quests D s" and ok: "callOk q l s" and early: "returnsEarly q l s"
  shows "settled quests (D - {quest_id q}) s"
proof -
  from returnsEarly_level_of [OF early] obtain e where e: "level_of s (quest_id q) = Some e" "l \<le> e"
    by auto
  have "aboveParents s q"
    unfolding aboveParents_def
  proof (intro allI impI ballI)
    fix l' p e'
    assume "level_of s (quest_id q) = Some l'" "allLeveled s q" "p \<in> set (prerequisites q)"
      "level_of s p = Some e'"
    with ok e show "e' < l'" by (auto simp: callOk_def)
  qed
  moreover have "c = q" if "c \<in> set quests" "quest_id c = quest_id q" for c
    using unique_quest [OF dq q that] .
  ultimately show ?thesis using st unfolding settled_def by blast
qed

lemma visitChildren_settled:
  assumes dq: "distinct (map quest_id quests)"
    and ih: "\<And>q l s s' D. assignLevel d quests q l s = Some s' \<Longrightarrow> q \<in> set quests \<Longrightarrow>
               settled quests D s \<Longrightarrow> callOk q l s \<Longrightarrow> settled quests (D - {quest_id q}) s'"
    and run: "forEach cs (visitChild (assignLevel d quests)) t = Some t'"
    and sub: "set cs \<subseteq> set quests"
    and st: "settled quests (D \<union> quest_id ` set cs) t"
  shows "settled quests D t'"
  using run sub st
proof (induction cs arbitrary: t)
  case Nil
  then show ?case by simp
next
  case (Cons a rest)
  from Cons.prems(1) obtain t1 where v: "visitChild (assignLevel d quests) a t = Some t1"
    and more: "forEach rest (visitChild (assignLevel d quests)) t1 = Some t'"
    by (auto split: option.splits)
  from Cons.prems(2) have a: "a \<in> set quests" and rsub: "set rest \<subseteq> set quests" by simp_all
  let ?D0 = "D \<union> quest_id ` set (a # rest)"
  have "settled quests (D \<union> quest_id ` set rest) t1"
  proof (cases "allLeveled t a")
    case True
    with v have r: "assignLevel d quests a (math_max (prereqLevelsOf t a) + 1) t = Some t1"
      by (simp add: visitChild_def prereqLevels_full)
    from ih [OF r a Cons.prems(3) callOk_max] have "settled quests (?D0 - {quest_id a}) t1" .
    then show ?thesis by (rule settled_mono) auto
  next
    case False
    with v have t1: "t1 = t" by (simp add: visitChild_def prereqLevels_full)
    from False have va: "aboveParents t a" by (simp add: aboveParents_def)
    have "aboveParents t c" if c: "c \<in> set quests" "quest_id c \<notin> D \<union> quest_id ` set rest" for c
    proof (cases "quest_id c = quest_id a")
      case True
      from unique_quest [OF dq a c(1) True] va show ?thesis by simp
    next
      case False
      with c(2) have "quest_id c \<notin> ?D0" by simp
      with Cons.prems(3) c(1) show ?thesis by (simp add: settled_def)
    qed
    with Cons.prems(3) t1 show ?thesis by (simp add: settled_def)
  qed
  with more rsub show ?case by (rule Cons.IH)
qed

lemma assignLevel_settled:
  assumes dq: "distinct (map quest_id quests)"
  shows "assignLevel d quests q l s = Some s' \<Longrightarrow> q \<in> set quests \<Longrightarrow>
         settled quests D s \<Longrightarrow> callOk q l s \<Longrightarrow> settled quests (D - {quest_id q}) s'"
proof (induction d arbitrary: q l s s' D)
  case 0
  then show ?case by simp
next
  case (Suc d)
  show ?case
  proof (cases "returnsEarly q l s")
    case True
    with Suc.prems(1) have "s' = s" by (simp add: assignLevel_Suc)
    with early_settled [OF dq Suc.prems(2,3,4) True] show ?thesis by simp
  next
    case False
    with Suc.prems(1)
    have run: "forEach (childrenOf quests q) (visitChild (assignLevel d quests)) (markLevel q l s)
                 = Some s'"
      by (simp add: assignLevel_Suc)
    have sub: "set (childrenOf quests q) \<subseteq> set quests" by (auto simp: childrenOf_def)
    from mark_settled [OF dq Suc.prems(2,3,4)]
    have "settled quests ((D - {quest_id q}) \<union> quest_id ` set (childrenOf quests q))
            (markLevel q l s)" .
    with dq Suc.IH run sub show ?thesis by (rule visitChildren_settled)
  qed
qed

lemma computeLevels_settled:
  assumes "computeLevels d quests = Some s" and dq: "distinct (map quest_id quests)"
  shows "settled quests {} s"
  using assms(1)
proof (rule computeLevels_rule [where pre = "\<lambda>q l s. q \<in> set quests \<and> callOk q l s"])
  show "settled quests {} emptyState"
    by (simp add: settled_def consistent_emptyState aboveParents_def)
       (simp add: level_of_def emptyState_def)
next
  fix q l s t
  assume st: "settled quests {} s" and p: "q \<in> set quests \<and> callOk q l s"
    and r: "assignLevel d quests q l s = Some t"
  from p have "q \<in> set quests" "callOk q l s" by simp_all
  from assignLevel_settled [OF dq r this(1) st this(2)] show "settled quests {} t" by simp
qed (simp_all add: callOk_max_Suc callOk_Nil)

lemma math_max_prereqLevelSet:
  assumes "allLeveled s q" and "prerequisites q \<noteq> []"
  shows "math_max (prereqLevelsOf s q) = Max (prereqLevelSet s q)"
proof -
  have set_eq: "set (prereqLevelsOf s q) = prereqLevelSet s q"
    by (auto simp: prereqLevelSet_def set_prereqLevelsOf)
  from allLeveled_max [OF assms] have "math_max (prereqLevelsOf s q) \<in> prereqLevelSet s q"
    by (auto simp: prereqLevelSet_def)
  moreover have "e \<le> math_max (prereqLevelsOf s q)" if "e \<in> prereqLevelSet s q" for e
    using that math_max_ge [of e "prereqLevelsOf s q"] by (simp add: set_eq)
  moreover have "finite (prereqLevelSet s q)" unfolding set_eq [symmetric] by simp
  ultimately show ?thesis by (intro Max_eqI [symmetric]) auto
qed

subsection \<open>A free quest behind the rooted cycle\<close>







subsection \<open>A quest whose prerequisites all have levels has one\<close>

lemma closedUnder_mono: "closedUnder quests D s \<Longrightarrow> D \<subseteq> D' \<Longrightarrow> closedUnder quests D' s"
  by (auto simp: closedUnder_def)







subsection \<open>The level groups are the ids at each level, in assigned order\<close>

lemma map_of_groupStep:
  "map_of (groupStep (i, l0) g) l =
     (if l = l0 then Some ((case map_of g l0 of None \<Rightarrow> [] | Some ids \<Rightarrow> ids) @ [i])
      else map_of g l)"
  by (simp add: groupStep_def update_conv' split: option.splits)

lemma map_of_groupByLevel:
  "map_of (groupByLevel lv) l =
     (if idsAtLevel lv l = [] then None else Some (idsAtLevel lv l))"
proof (induction lv arbitrary: l rule: rev_induct)
  case Nil
  then show ?case by (simp add: groupByLevel_def idsAtLevel_def)
next
  case (snoc e lv)
  obtain i l0 where e: "e = (i, l0)" by (cases e)
  have ids: "idsAtLevel (lv @ [(i, l0)]) l = idsAtLevel lv l @ (if l0 = l then [i] else [])"
    by (simp add: idsAtLevel_def)
  show ?case
    unfolding e groupByLevel_snoc map_of_groupStep ids
    using snoc.IH [of l] snoc.IH [of l0] by (auto split: if_splits)
qed

lemma distinct_groupByLevel: "distinct (map fst (groupByLevel lv))"
proof (induction lv rule: rev_induct)
  case Nil
  then show ?case by (simp add: groupByLevel_def)
next
  case (snoc e lv)
  obtain i l0 where e: "e = (i, l0)" by (cases e)
  from snoc show ?case
    unfolding e groupByLevel_snoc
    by (simp add: groupStep_def distinct_update split: option.splits)
qed

lemma groupByLevel_member:
  "(l, ids) \<in> set (groupByLevel lv) \<longleftrightarrow> ids = idsAtLevel lv l \<and> ids \<noteq> []"
proof -
  have "(l, ids) \<in> set (groupByLevel lv) \<longleftrightarrow> map_of (groupByLevel lv) l = Some ids"
    using distinct_groupByLevel [of lv] by simp
  then show ?thesis by (auto simp: map_of_groupByLevel)
qed

lemma idsAtLevel_member:
  assumes "distinct (map fst lv)"
  shows "i \<in> set (idsAtLevel lv l) \<longleftrightarrow> map_of lv i = Some l"
proof -
  have "i \<in> set (idsAtLevel lv l) \<longleftrightarrow> (i, l) \<in> set lv"
    by (force simp: idsAtLevel_def)
  with assms show ?thesis by simp
qed

subsection \<open>Seeding, for passes that return\<close>

text \<open>
  With unique quest ids: when the primary pass returns, a quest of the dataset is at
  level 0 exactly when it is a milestone with no prerequisites, and a quest with no
  prerequisites that is not a milestone has no level; when the whole level computation
  returns, every quest with no prerequisites is at level 0.
\<close>

lemma seeding_when_passes_return:
  assumes "distinct (map quest_id quests)" and "q \<in> set quests"
  shows "(primaryPass depth quests = Some s \<longrightarrow>
            (level_of s (quest_id q) = Some 0 \<longleftrightarrow> unlockMilestone q \<and> prerequisites q = []) \<and>
            (prerequisites q = [] \<and> \<not> unlockMilestone q \<longrightarrow> level_of s (quest_id q) = None)) \<and>
         (computeLevels depth quests = Some s' \<longrightarrow> prerequisites q = [] \<longrightarrow>
            level_of s' (quest_id q) = Some 0)"
proof (intro conjI impI)
  assume p: "primaryPass depth quests = Some s"
  have only: "if prerequisites q = [] then unlockMilestone q \<and> l = 0 else 0 < l"
    if "level_of s (quest_id q) = Some l" for l
  proof -
    from primaryPass_seededOnly [OF p] that obtain c where c: "c \<in> set quests"
      "quest_id c = quest_id q"
      "if prerequisites c = [] then unlockMilestone c \<and> l = 0 else 0 < l"
      unfolding seededOnly_def by blast
    from unique_quest [OF assms c(1,2)] have "c = q" .
    from c(3) [unfolded this] show ?thesis .
  qed
  show "level_of s (quest_id q) = Some 0 \<longleftrightarrow> unlockMilestone q \<and> prerequisites q = []"
  proof
    assume "level_of s (quest_id q) = Some 0"
    from only [OF this] show "unlockMilestone q \<and> prerequisites q = []"
      by (auto split: if_splits)
  next
    assume r: "unlockMilestone q \<and> prerequisites q = []"
    with assms(2) have "q \<in> set (roots quests)" by (simp add: roots_def)
    from primaryPass_roots_leveled [OF p this] obtain l where l: "level_of s (quest_id q) = Some l"
      by (auto simp: hasLevel_def)
    from only [OF l] r l show "level_of s (quest_id q) = Some 0" by simp
  qed
  show "level_of s (quest_id q) = None" if "prerequisites q = [] \<and> \<not> unlockMilestone q"
  proof (cases "level_of s (quest_id q)")
    case (Some l)
    from only [OF Some] that show ?thesis by simp
  qed simp
next
  assume c: "computeLevels depth quests = Some s'" and e: "prerequisites q = []"
  from computeLevels_prereq_free [OF c assms(2) e] obtain l
    where l: "level_of s' (quest_id q) = Some l" by (auto simp: hasLevel_def)
  from computeLevels_justified [OF c] l obtain c' where c': "c' \<in> set quests"
    "quest_id c' = quest_id q" "prerequisites c' = [] \<longrightarrow> l = 0"
    unfolding justified_def by (metis (full_types))
  from unique_quest [OF assms c'(1,2)] have "c' = q" .
  with c'(3) e l show "level_of s' (quest_id q) = Some 0" by simp
qed

subsection \<open>Datasets without cycles: the run returns\<close>

text \<open>
  Along nested calls of \<^verbatim>\<open>assignLevel\<close> the rank of the quest grows, so a stack with
  room for more than \<open>bound\<close> calls is never exceeded.
\<close>

lemma forEach_returns:
  assumes "\<And>a s. a \<in> set xs \<Longrightarrow> \<exists>s'. f a s = Some s'"
  shows "\<exists>s'. forEach xs f s = Some s'"
  using assms
proof (induction xs arbitrary: s)
  case Nil
  show ?case by simp
next
  case (Cons a xs)
  from Cons.prems [of a s] obtain s1 where s1: "f a s = Some s1" by auto
  have "\<exists>s'. forEach xs f s1 = Some s'"
  proof (rule Cons.IH)
    fix b t assume "b \<in> set xs"
    then show "\<exists>s'. f b t = Some s'" using Cons.prems [of b t] by simp
  qed
  with s1 show ?case by simp
qed

lemma assignLevel_returns:
  assumes r: "ranked rank bound quests"
  shows "q \<in> set quests \<Longrightarrow> bound - rank (quest_id q) < depth
           \<Longrightarrow> \<exists>s'. assignLevel depth quests q l s = Some s'"
proof (induction depth arbitrary: q l s)
  case 0
  then show ?case by simp
next
  case (Suc d)
  show ?case
  proof (cases "returnsEarly q l s")
    case True
    then show ?thesis by (simp add: assignLevel_Suc)
  next
    case False
    have "\<exists>s'. forEach (childrenOf quests q) (visitChild (assignLevel d quests)) (markLevel q l s)
            = Some s'"
    proof (rule forEach_returns)
      fix c t assume c: "c \<in> set (childrenOf quests q)"
      then have cq: "c \<in> set quests" and pre: "quest_id q \<in> set (prerequisites c)"
        by (simp_all add: childrenOf_def)
      from r cq pre have lt: "rank (quest_id q) < rank (quest_id c)" and le: "rank (quest_id c) \<le> bound"
        by (auto simp: ranked_def)
      with Suc.prems(2) have "bound - rank (quest_id c) < d" by arith
      from Suc.IH [OF cq this] show "\<exists>s'. visitChild (assignLevel d quests) c t = Some s'"
        by (simp add: visitChild_def)
    qed
    with False show ?thesis by (simp add: assignLevel_Suc)
  qed
qed

lemma primaryPass_returns:
  assumes "ranked rank bound quests" and "bound < depth"
  shows "\<exists>s. primaryPass depth quests = Some s"
  unfolding primaryPass_def
proof (rule forEach_returns)
  fix a s assume "a \<in> set (roots quests)"
  then have "a \<in> set quests" by (simp add: roots_def)
  moreover from assms(2) have "bound - rank (quest_id a) < depth" by arith
  ultimately show "\<exists>s'. assignLevel depth quests a 0 s = Some s'"
    by (rule assignLevel_returns [OF assms(1)])
qed

lemma sweepPass_returns:
  assumes "ranked rank bound quests" and "bound < depth"
  shows "\<exists>s'. forEach quests (sweepQuest depth quests) s = Some s'"
proof (rule forEach_returns)
  fix a t assume a: "a \<in> set quests"
  from assms(2) have "bound - rank (quest_id a) < depth" by arith
  from assignLevel_returns [OF assms(1) a this]
  show "\<exists>s'. sweepQuest depth quests a t = Some s'"
    by (simp add: sweepQuest_def Let_def)
qed

lemma fallbackSweep_returns:
  assumes "ranked rank bound quests" and "bound < depth"
  shows "\<exists>s'. fallbackSweep depth quests n s = Some s'"
proof (induction n arbitrary: s)
  case 0
  show ?case by simp
next
  case (Suc n)
  from sweepPass_returns [OF assms] obtain s1
    where "forEach quests (sweepQuest depth quests) s = Some s1" by blast
  with Suc.IH [of s1] show ?case by simp
qed

lemma computeLevels_returns:
  assumes "ranked rank bound quests" and "bound < depth"
  shows "\<exists>s. computeLevels depth quests = Some s"
proof -
  from primaryPass_returns [OF assms] obtain s0 where "primaryPass depth quests = Some s0"
    by blast
  with fallbackSweep_returns [OF assms, of 10 s0] show ?thesis
    by (simp add: computeLevels_def)
qed

section \<open>The claims\<close>




text \<open>
  C2.  Termination.  The claim fails on the dataset \<open>rootedCycle\<close> (root R; A requires
  R and B; B requires A): whatever depth the call stack allows, the recursion of
  \<open>assignLevel\<close> exceeds it, so \<open>calculateLayout\<close> does not return.  The unbounded
  recursion starts in the first fallback pass, which gives A the level 1 from its one
  resolved prerequisite.
\<close>

theorem rooted_cycle_overflows_every_stack:
  "calculateLayout depth rootedCycle nodePositions = None"
proof (cases depth)
  case 0
  have "roots rootedCycle = [cycR]"
    by (simp add: roots_def rootedCycle_def) (simp add: cycA_def cycB_def cycR_def mkQuest_def)
  then have "primaryPass 0 rootedCycle = None" by (simp add: primaryPass_def)
  with 0 show ?thesis by (simp add: calculateLayout_def computeLevels_def)
next
  case (Suc d)
  have len: "length (processed cycSeeded) < length rootedCycle"
    by (simp add: cycSeeded_def rootedCycle_def)
  have ten: "(10::nat) = Suc 9" by simp
  have "fallbackSweep depth rootedCycle 10 cycSeeded = None"
    unfolding ten fallbackSweep.simps using len cyc_sweep [of depth] by simp
  with Suc show ?thesis by (simp add: calculateLayout_def computeLevels_def cyc_primary)
qed

text \<open>
  C3, as stated, fails.  On \<open>danglingOnly\<close> (the single quest X, whose one
  prerequisite is not in the dataset) the layout returns with no level for X and an
  empty position mapping: line 238 tests the length of the unfiltered prerequisites
  list, which is 1, so X is skipped in each of the ten passes.
\<close>

theorem dangling_quest_gets_no_position:
  "computeLevels 10 danglingOnly = Some emptyState \<and>
   calculateLayout 10 danglingOnly [] = Some (\<lparr>maxLevel = NegInfinity, levelGroups = []\<rparr>, [])"
  by code_simp

text \<open>
  C3, amended.  When \<open>calculateLayout\<close> returns and every quest with the id \<open>x\<close> has
  a non-empty prerequisites list that names only ids absent from the dataset, \<open>x\<close>
  has no level and no position.
\<close>

theorem unknown_prerequisites_block_placement:
  assumes "calculateLayout depth quests nodePositions = Some (r, pos)"
    and "\<forall>c \<in> set quests. quest_id c = x \<longrightarrow>
           prerequisites c \<noteq> [] \<and> set (prerequisites c) \<inter> quest_id ` set quests = {}"
  shows "map_of pos x = None \<and>
         (\<forall>s. computeLevels depth quests = Some s \<longrightarrow> level_of s x = None)"
proof -
  from assms(1) obtain s where s: "computeLevels depth quests = Some s"
    and p: "pos = fold placeRow (groupByLevel (levels s)) []"
    by (rule calculateLayout_Some)
  from computeLevels_avoiding [OF s assms(2)] have w: "wellformed quests s"
    and n: "level_of s x = None"
    by (simp_all add: avoiding_def hasLevel_def)
  from w have d: "distinct (map fst (levels s))" by (simp add: wellformed_def)
  have "fst ` set pos = fst ` set (levels s)"
    unfolding p using d by (rule layout_of_levels(2))
  with n have "map_of pos x = None" by (simp add: map_of_eq_None_iff level_of_None_iff)
  with s n show ?thesis by simp
qed

theorem unknown_prerequisites_block_placement_witness:
  "calculateLayout 10 danglingOnly [] = Some (\<lparr>maxLevel = NegInfinity, levelGroups = []\<rparr>, []) \<and>
   set danglingOnly = {mkQuest ''X'' False [''unknown'']} \<and>
   prerequisites (mkQuest ''X'' False [''unknown'']) \<noteq> [] \<and>
   set (prerequisites (mkQuest ''X'' False [''unknown''])) \<inter> quest_id ` set danglingOnly = {} \<and>
   computeLevels 10 danglingOnly = Some emptyState \<and>
   map_of ([] :: (string \<times> position) list) ''X'' = None \<and> level_of emptyState ''X'' = None"
proof -
  have h: "calculateLayout 10 danglingOnly [] = Some (\<lparr>maxLevel = NegInfinity, levelGroups = []\<rparr>, [])"
    by code_simp
  have s: "set danglingOnly = {mkQuest ''X'' False [''unknown'']}"
    by (simp add: danglingOnly_def)
  have n: "prerequisites (mkQuest ''X'' False [''unknown'']) \<noteq> []"
    by (simp add: mkQuest_def)
  have u: "set (prerequisites (mkQuest ''X'' False [''unknown''])) \<inter> quest_id ` set danglingOnly = {}"
    by (simp add: danglingOnly_def mkQuest_def)
  have b: "\<forall>c \<in> set danglingOnly. quest_id c = ''X'' \<longrightarrow>
      prerequisites c \<noteq> [] \<and> set (prerequisites c) \<inter> quest_id ` set danglingOnly = {}"
    by (simp add: danglingOnly_def mkQuest_def)
  have c: "computeLevels 10 danglingOnly = Some emptyState" by code_simp
  from unknown_prerequisites_block_placement [OF h b] h s n u c show ?thesis by simp
qed

text \<open>
  C4, as stated, fails.  The dataset \<open>staleEdge\<close> has no cycle, and P and Q are
  reachable from its root A.  The primary pass levels A only.  The first fallback pass
  gives P level 1 (from A alone) and Q level 2 (from P alone, its other prerequisite
  being unknown); D then gets level 1 and raises P to 2.  Line 222 never lets the
  propagation reach Q, which has a prerequisite without a level, and the sweep skips Q
  as processed: P and Q both end at level 2, although P is a prerequisite of Q.
\<close>

theorem stale_edge_levels_equal:
  "roots staleEdge = [mkQuest ''A'' True []] \<and> computeLevels 10 staleEdge = Some staleFinal \<and>
   ''A'' \<in> set (prerequisites (mkQuest ''P'' False [''A'', ''D''])) \<and>
   ''P'' \<in> set (prerequisites (mkQuest ''Q'' False [''P'', ''unknown''])) \<and>
   mkQuest ''P'' False [''A'', ''D''] \<in> set staleEdge \<and>
   mkQuest ''Q'' False [''P'', ''unknown''] \<in> set staleEdge \<and>
   level_of staleFinal ''P'' = Some 2 \<and> level_of staleFinal ''Q'' = Some 2"
  by code_simp

text \<open>
  C4, amended.  When the level computation returns on a dataset with unique quest ids,
  every quest that has a level, has prerequisites and all of whose prerequisites have
  levels is exactly one level above the highest of them:
  \<open>level(quest) = 1 + max(level(p))\<close>, so it is above each of its prerequisites.
\<close>

theorem level_one_above_prerequisites:
  assumes "computeLevels depth quests = Some s" and "distinct (map quest_id quests)"
    and "q \<in> set quests" and "prerequisites q \<noteq> []" and "allLeveled s q"
    and "level_of s (quest_id q) = Some l"
  shows "l = 1 + Max (prereqLevelSet s q) \<and>
         (\<forall>p \<in> set (prerequisites q). \<forall>e. level_of s p = Some e \<longrightarrow> e < l)"
proof -
  let ?M = "math_max (prereqLevelsOf s q)"
  from computeLevels_settled [OF assms(1,2)] assms(3) have "aboveParents s q"
    by (simp add: settled_def)
  with assms(5,6)
  have above: "\<forall>p \<in> set (prerequisites q). \<forall>e. level_of s p = Some e \<longrightarrow> e < l"
    by (simp add: aboveParents_def)
  from allLeveled_max [OF assms(5,4)] above have lower: "?M < l" by blast
  from computeLevels_justified [OF assms(1)] assms(6) obtain c where c: "c \<in> set quests"
    "quest_id c = quest_id q"
    "if prerequisites c = [] then l = 0
     else \<exists>p \<in> set (prerequisites c). \<exists>e. level_of s p = Some e \<and> l \<le> e + 1"
    unfolding justified_def by blast
  from unique_quest [OF assms(2,3) c(1,2)] have "c = q" .
  with c(3) assms(4) obtain p e where p: "p \<in> set (prerequisites q)" "level_of s p = Some e"
    "l \<le> e + 1" by auto
  from p(1,2) have "e \<in> set (prereqLevelsOf s q)" by (auto simp: set_prereqLevelsOf)
  from math_max_ge [OF this] p(3) have "l \<le> ?M + 1" by simp
  with lower have "l = 1 + ?M" by simp
  with above math_max_prereqLevelSet [OF assms(5,4)] show ?thesis by simp
qed

theorem level_one_above_prerequisites_witness:
  "computeLevels 10 diamond = Some diamondLevels \<and> distinct (map quest_id diamond) \<and>
   mkQuest ''F'' False [''M1'', ''M2''] \<in> set diamond \<and>
   prerequisites (mkQuest ''F'' False [''M1'', ''M2'']) \<noteq> [] \<and>
   allLeveled diamondLevels (mkQuest ''F'' False [''M1'', ''M2'']) \<and>
   level_of diamondLevels ''F'' = Some 2 \<and>
   (2::nat) = 1 + Max (prereqLevelSet diamondLevels (mkQuest ''F'' False [''M1'', ''M2''])) \<and>
   level_of diamondLevels ''M1'' = Some 1 \<and> (1::nat) < 2"
proof -
  let ?F = "mkQuest ''F'' False [''M1'', ''M2'']"
  have c: "computeLevels 10 diamond = Some diamondLevels" by code_simp
  have d: "distinct (map quest_id diamond)" by (simp add: diamond_def mkQuest_def)
  have m: "?F \<in> set diamond" by (simp add: diamond_def)
  have n: "prerequisites ?F \<noteq> []" by (simp add: mkQuest_def)
  have a: "allLeveled diamondLevels ?F"
    by (simp add: allLeveled_def mkQuest_def level_of_def diamondLevels_def)
  have l: "level_of diamondLevels (quest_id ?F) = Some 2"
    by (simp add: mkQuest_def level_of_def diamondLevels_def)
  have i: "quest_id ?F = ''F''" by (simp add: mkQuest_def)
  have m1: "level_of diamondLevels ''M1'' = Some 1" by (simp add: level_of_def diamondLevels_def)
  from level_one_above_prerequisites [OF c d m n a l] c d m n a l i m1 show ?thesis by simp
qed


text \<open>
  C6.  Row centering.  Whenever the level computation returns a level map,
  \<open>calculateLayout\<close> returns; its level groups are exactly the non-empty lists of the
  ids at each level in assigned order; the id at index \<open>k\<close> of the \<open>n\<close> ids at a level has
  \<open>x = -((n - 1) * nodeSpacingX) / 2 + k * nodeSpacingX\<close>; the first of them is at
  \<open>-((n - 1) * nodeSpacingX) / 2\<close>, the last at \<open>+((n - 1) * nodeSpacingX) / 2\<close>, and
  they are \<open>(n - 1) * nodeSpacingX\<close> apart.  (A level holds quests only in a run whose
  level computation returns.)
\<close>

theorem row_centering:
  assumes "computeLevels depth quests = Some s"
  shows "\<exists>r pos. calculateLayout depth quests nodePositions = Some (r, pos) \<and>
           (\<forall>i l. level_of s i = Some l \<longleftrightarrow> i \<in> set (idsAtLevel (levels s) l)) \<and>
           (\<forall>l ids. (l, ids) \<in> set (levelGroups r) \<longleftrightarrow>
              ids = idsAtLevel (levels s) l \<and> ids \<noteq> []) \<and>
           (\<forall>l k. k < length (idsAtLevel (levels s) l) \<longrightarrow>
              (\<exists>p. map_of pos (idsAtLevel (levels s) l ! k) = Some p \<and>
                 pos_x p = - ((real (length (idsAtLevel (levels s) l)) - 1) * nodeSpacingX) / 2
                             + real k * nodeSpacingX)) \<and>
           (\<forall>l. idsAtLevel (levels s) l \<noteq> [] \<longrightarrow>
              (\<exists>p0 pn. map_of pos (idsAtLevel (levels s) l ! 0) = Some p0 \<and>
                 map_of pos (idsAtLevel (levels s) l ! (length (idsAtLevel (levels s) l) - 1))
                   = Some pn \<and>
                 pos_x p0 = - ((real (length (idsAtLevel (levels s) l)) - 1) * nodeSpacingX) / 2 \<and>
                 pos_x pn = ((real (length (idsAtLevel (levels s) l)) - 1) * nodeSpacingX) / 2 \<and>
                 pos_x pn - pos_x p0
                   = (real (length (idsAtLevel (levels s) l)) - 1) * nodeSpacingX))"
proof -
  let ?lv = "levels s"
  let ?groups = "groupByLevel ?lv"
  let ?r = "\<lparr>maxLevel = math_max_keys (map fst ?groups), levelGroups = ?groups\<rparr>"
  let ?pos = "fold placeRow ?groups []"
  have run: "calculateLayout depth quests nodePositions = Some (?r, ?pos)"
    using assms by (simp add: calculateLayout_def Let_def)
  from computeLevels_wellformed [OF assms] have d: "distinct (map fst ?lv)"
    by (simp add: wellformed_def)
  have mem: "\<forall>i l. level_of s i = Some l \<longleftrightarrow> i \<in> set (idsAtLevel ?lv l)"
    using idsAtLevel_member [OF d] by (simp add: level_of_def)
  have grp: "\<forall>l ids. (l, ids) \<in> set (levelGroups ?r) \<longleftrightarrow> ids = idsAtLevel ?lv l \<and> ids \<noteq> []"
    by (simp add: groupByLevel_member)
  have at: "map_of ?pos (idsAtLevel ?lv l ! k)
              = Some (rowPosition l (length (idsAtLevel ?lv l)) k)"
    if "k < length (idsAtLevel ?lv l)" for l k
  proof -
    from that have "idsAtLevel ?lv l \<noteq> []" by auto
    then have "(l, idsAtLevel ?lv l) \<in> set ?groups" by (simp add: groupByLevel_member)
    from layout_of_levels(1) [OF d this that] show ?thesis .
  qed
  have x: "\<forall>l k. k < length (idsAtLevel ?lv l) \<longrightarrow>
             (\<exists>p. map_of ?pos (idsAtLevel ?lv l ! k) = Some p \<and>
                pos_x p = - ((real (length (idsAtLevel ?lv l)) - 1) * nodeSpacingX) / 2
                            + real k * nodeSpacingX)"
    using at by (simp add: rowPosition_def)
  have span: "\<exists>p0 pn. map_of ?pos (idsAtLevel ?lv l ! 0) = Some p0 \<and>
                 map_of ?pos (idsAtLevel ?lv l ! (length (idsAtLevel ?lv l) - 1)) = Some pn \<and>
                 pos_x p0 = - ((real (length (idsAtLevel ?lv l)) - 1) * nodeSpacingX) / 2 \<and>
                 pos_x pn = ((real (length (idsAtLevel ?lv l)) - 1) * nodeSpacingX) / 2 \<and>
                 pos_x pn - pos_x p0 = (real (length (idsAtLevel ?lv l)) - 1) * nodeSpacingX"
    if ne: "idsAtLevel ?lv l \<noteq> []" for l
  proof -
    let ?ids = "idsAtLevel ?lv l"
    let ?n = "length ?ids"
    from ne have n: "0 < ?n" "?n - 1 < ?n" by (cases ?ids; simp)+
    from ne have rn: "real (?n - 1) = real ?n - 1" by (cases ?ids) simp_all
    have "pos_x (rowPosition l ?n 0) = - ((real ?n - 1) * nodeSpacingX) / 2"
      by (simp add: rowPosition_def)
    moreover have "pos_x (rowPosition l ?n (?n - 1)) = ((real ?n - 1) * nodeSpacingX) / 2"
      unfolding rowPosition_def rn by simp
    ultimately show ?thesis using at [OF n(1)] at [OF n(2)] by simp
  qed
  from run mem grp x span show ?thesis by blast
qed

theorem row_centering_witness:
  "computeLevels 10 diamond = Some diamondLevels \<and>
   idsAtLevel (levels diamondLevels) 1 = [''M1'', ''M2''] \<and>
   calculateLayout 10 diamond [] = Some (diamondResult, diamondPositions) \<and>
   (1, [''M1'', ''M2'']) \<in> set (levelGroups diamondResult) \<and>
   (\<exists>p. map_of diamondPositions ''M2'' = Some p \<and> pos_x p = 80) \<and>
   (\<exists>p0 pn. map_of diamondPositions ''M1'' = Some p0 \<and> map_of diamondPositions ''M2'' = Some pn \<and>
      pos_x p0 = - 80 \<and> pos_x pn = 80 \<and> pos_x pn - pos_x p0 = 160)"
proof -
  have c: "computeLevels 10 diamond = Some diamondLevels" by code_simp
  have i: "idsAtLevel (levels diamondLevels) 1 = [''M1'', ''M2'']" by code_simp
  have h: "calculateLayout 10 diamond [] = Some (diamondResult, diamondPositions)"
    by code_simp
  from row_centering [OF c, of "[]"] h
  have g: "\<forall>l ids. (l, ids) \<in> set (levelGroups diamondResult) \<longleftrightarrow>
              ids = idsAtLevel (levels diamondLevels) l \<and> ids \<noteq> []"
    and x: "\<forall>l k. k < length (idsAtLevel (levels diamondLevels) l) \<longrightarrow>
              (\<exists>p. map_of diamondPositions (idsAtLevel (levels diamondLevels) l ! k) = Some p \<and>
                 pos_x p = - ((real (length (idsAtLevel (levels diamondLevels) l)) - 1) * nodeSpacingX) / 2
                             + real k * nodeSpacingX)"
    and sp: "\<forall>l. idsAtLevel (levels diamondLevels) l \<noteq> [] \<longrightarrow>
              (\<exists>p0 pn. map_of diamondPositions (idsAtLevel (levels diamondLevels) l ! 0) = Some p0 \<and>
                 map_of diamondPositions (idsAtLevel (levels diamondLevels) l
                     ! (length (idsAtLevel (levels diamondLevels) l) - 1)) = Some pn \<and>
                 pos_x p0 = - ((real (length (idsAtLevel (levels diamondLevels) l)) - 1) * nodeSpacingX) / 2 \<and>
                 pos_x pn = ((real (length (idsAtLevel (levels diamondLevels) l)) - 1) * nodeSpacingX) / 2 \<and>
                 pos_x pn - pos_x p0
                   = (real (length (idsAtLevel (levels diamondLevels) l)) - 1) * nodeSpacingX)"
    by auto
  from g i have m: "(1, [''M1'', ''M2'']) \<in> set (levelGroups diamondResult)" by simp
  from x [rule_format, of 1 1] i
  have x1: "\<exists>p. map_of diamondPositions ''M2'' = Some p \<and> pos_x p = 80"
    by (simp add: nodeSpacingX_def)
  from sp [rule_format, of 1] i
  have s1: "\<exists>p0 pn. map_of diamondPositions ''M1'' = Some p0 \<and> map_of diamondPositions ''M2'' = Some pn \<and>
      pos_x p0 = - 80 \<and> pos_x pn = 80 \<and> pos_x pn - pos_x p0 = 160"
    by (simp add: nodeSpacingX_def)
  from c i h m x1 s1 show ?thesis by simp
qed

text \<open>
  C7.  Vertical placement.  In a run that returns, every id with a position has a level,
  its \<open>y\<close> is that level times \<open>nodeSpacingY\<close>, and two ids with different levels
  have different \<open>y\<close>.
\<close>

theorem vertical_placement:
  assumes "computeLevels depth quests = Some s"
    and "calculateLayout depth quests nodePositions = Some (r, pos)"
  shows "(map_of pos i = Some p \<longrightarrow>
            (\<exists>l. level_of s i = Some l \<and> pos_y p = real l * nodeSpacingY)) \<and>
         (map_of pos i = Some p \<and> map_of pos j = Some p' \<and> level_of s i \<noteq> level_of s j \<longrightarrow>
            pos_y p \<noteq> pos_y p')"
proof -
  from assms have p: "pos = fold placeRow (groupByLevel (levels s)) []"
    by (auto elim: calculateLayout_Some)
  from computeLevels_wellformed [OF assms(1)] have d: "distinct (map fst (levels s))"
    by (simp add: wellformed_def)
  have keys: "fst ` set pos = fst ` set (levels s)"
    unfolding p using d by (rule layout_of_levels(2))
  have y: "\<exists>l. level_of s i = Some l \<and> pos_y q = real l * nodeSpacingY"
    if "map_of pos i = Some q" for i q
  proof -
    from that have "i \<in> fst ` set pos" using map_of_eq_None_iff [of pos i] by simp
    with keys obtain l where l: "map_of (levels s) i = Some l"
      using map_of_eq_None_iff [of "levels s" i] by auto
    from layout_of_levels(4) [OF d l] that obtain n k where "q = rowPosition l n k"
      by (auto simp: p)
    with l show ?thesis by (simp add: level_of_def rowPosition_def)
  qed
  show ?thesis
  proof (intro conjI impI)
    assume "map_of pos i = Some p"
    then show "\<exists>l. level_of s i = Some l \<and> pos_y p = real l * nodeSpacingY" by (rule y)
  next
    assume a: "map_of pos i = Some p \<and> map_of pos j = Some p' \<and> level_of s i \<noteq> level_of s j"
    from a y [of i p] obtain l where l: "level_of s i = Some l" "pos_y p = real l * nodeSpacingY"
      by auto
    from a y [of j p'] obtain l' where l': "level_of s j = Some l'" "pos_y p' = real l' * nodeSpacingY"
      by auto
    from a l l' have "l \<noteq> l'" by auto
    with l l' show "pos_y p \<noteq> pos_y p'" by (simp add: nodeSpacingY_def)
  qed
qed

theorem vertical_placement_witness:
  "computeLevels 10 diamond = Some diamondLevels \<and>
   calculateLayout 10 diamond [] = Some (diamondResult, diamondPositions) \<and>
   map_of diamondPositions ''F'' = Some \<lparr>pos_x = 0, pos_y = 160\<rparr> \<and>
   map_of diamondPositions ''M1'' = Some \<lparr>pos_x = - 80, pos_y = 80\<rparr> \<and>
   level_of diamondLevels ''F'' \<noteq> level_of diamondLevels ''M1'' \<and>
   (\<exists>l. level_of diamondLevels ''F'' = Some l \<and> (160::real) = real l * nodeSpacingY) \<and>
   (160::real) \<noteq> 80"
proof -
  have c: "computeLevels 10 diamond = Some diamondLevels" by code_simp
  have h: "calculateLayout 10 diamond [] = Some (diamondResult, diamondPositions)"
    by code_simp
  have f: "map_of diamondPositions ''F'' = Some \<lparr>pos_x = 0, pos_y = 160\<rparr>"
    by (simp add: diamondPositions_def)
  have m: "map_of diamondPositions ''M1'' = Some \<lparr>pos_x = - 80, pos_y = 80\<rparr>"
    by (simp add: diamondPositions_def)
  have n: "level_of diamondLevels ''F'' \<noteq> level_of diamondLevels ''M1''"
    by (simp add: level_of_def diamondLevels_def)
  from vertical_placement [OF c h, of "''F''" "\<lparr>pos_x = 0, pos_y = 160\<rparr>" "''M1''"
      "\<lparr>pos_x = - 80, pos_y = 80\<rparr>"] c h f m n
  show ?thesis by simp
qed

text \<open>
  C8.  Idempotence and determinism.  A second run, started with the positions the first
  run left in \<^verbatim>\<open>nodePositions\<close>, returns the same \<open>maxLevel\<close>, level groups and
  positions; so does any run on the same quests that returns, whatever
  \<^verbatim>\<open>nodePositions\<close> held before and whatever room the call stack has.
\<close>

theorem layout_idempotent:
  assumes "calculateLayout depth quests nodePositions = Some (r, pos)"
  shows "calculateLayout depth quests pos = Some (r, pos) \<and>
         (calculateLayout depth' quests nodePositions' = Some (r', pos') \<longrightarrow> r' = r \<and> pos' = pos)"
proof (intro conjI impI)
  show "calculateLayout depth quests pos = Some (r, pos)"
    using assms by (simp add: calculateLayout_def)
next
  assume other: "calculateLayout depth' quests nodePositions' = Some (r', pos')"
  have "calculateLayout (max depth depth') quests [] = Some (r, pos)"
    using assms by (rule calculateLayout_fuel [rotated]) simp
  moreover have "calculateLayout (max depth depth') quests [] = Some (r', pos')"
    using other by (rule calculateLayout_fuel [rotated]) simp
  ultimately show "r' = r" and "pos' = pos" by simp_all
qed

theorem layout_idempotent_witness:
  "calculateLayout 10 diamond [] = Some (diamondResult, diamondPositions) \<and>
   calculateLayout 10 diamond diamondPositions = Some (diamondResult, diamondPositions) \<and>
   calculateLayout 20 diamond [(''F'', \<lparr>pos_x = 1, pos_y = 1\<rparr>)] = Some (diamondResult, diamondPositions)"
proof -
  have h: "calculateLayout 10 diamond [] = Some (diamondResult, diamondPositions)"
    by code_simp
  have o: "calculateLayout 20 diamond [(''F'', \<lparr>pos_x = 1, pos_y = 1\<rparr>)]
             = Some (diamondResult, diamondPositions)"
    by code_simp
  from layout_idempotent [OF h, of 20 "[(''F'', \<lparr>pos_x = 1, pos_y = 1\<rparr>)]"] h o
  show ?thesis by simp
qed

text \<open>
  C9.  Level non-regression.  From a state whose two containers agree (the initial state
  does, and every step keeps it), the write of line 214, a whole call of
  \<open>assignLevel\<close>, a fallback pass and the whole fallback loop each leave every quest
  that had a level with a level that is not smaller.
\<close>

theorem level_never_decreases:
  assumes "consistent s"
  shows "(\<not> returnsEarly q l s \<longrightarrow>
            levels_le s (markLevel q l s) \<and> consistent (markLevel q l s)) \<and>
         (assignLevel depth quests q l s = Some s' \<longrightarrow> levels_le s s' \<and> consistent s') \<and>
         (forEach quests (sweepQuest depth quests) s = Some s' \<longrightarrow>
            levels_le s s' \<and> consistent s') \<and>
         (fallbackSweep depth quests n s = Some s' \<longrightarrow> levels_le s s' \<and> consistent s')"
proof (intro conjI impI)
  assume "\<not> returnsEarly q l s"
  with assms show "levels_le s (markLevel q l s)" by (rule mark_levels_le)
next
  show "consistent (markLevel q l s)" using assms by (rule mark_consistent)
next
  assume "assignLevel depth quests q l s = Some s'"
  from assignLevel_consistent_le [OF this assms] show "levels_le s s'" and "consistent s'"
    by simp_all
next
  assume "forEach quests (sweepQuest depth quests) s = Some s'"
  from sweepPass_consistent_le [OF this assms] show "levels_le s s'" and "consistent s'"
    by simp_all
next
  assume "fallbackSweep depth quests n s = Some s'"
  from fallbackSweep_consistent_le [OF this assms] show "levels_le s s'" and "consistent s'"
    by simp_all
qed

theorem level_never_decreases_witness:
  "consistent staleMid \<and>
   \<not> returnsEarly (mkQuest ''D'' False [''E'']) 1 staleMid \<and>
   assignLevel 10 staleEdge (mkQuest ''D'' False [''E'']) 1 staleMid = Some staleFinal \<and>
   forEach staleEdge (sweepQuest 10 staleEdge) staleMid = Some staleFinal \<and>
   fallbackSweep 10 staleEdge 10 staleMid = Some staleFinal \<and>
   levels_le staleMid (markLevel (mkQuest ''D'' False [''E'']) 1 staleMid) \<and>
   levels_le staleMid staleFinal \<and> consistent staleFinal \<and>
   level_of staleMid ''P'' = Some 1 \<and> level_of staleFinal ''P'' = Some 2"
proof -
  have c: "consistent staleMid" by (simp add: consistent_def staleMid_def)
  have e: "\<not> returnsEarly (mkQuest ''D'' False [''E'']) 1 staleMid" by code_simp
  have a: "assignLevel 10 staleEdge (mkQuest ''D'' False [''E'']) 1 staleMid = Some staleFinal"
    by code_simp
  have p: "forEach staleEdge (sweepQuest 10 staleEdge) staleMid = Some staleFinal"
    by code_simp
  have f: "fallbackSweep 10 staleEdge 10 staleMid = Some staleFinal"
    by code_simp
  have l: "level_of staleMid ''P'' = Some 1" "level_of staleFinal ''P'' = Some 2"
    by code_simp+
  from level_never_decreases [OF c, of "mkQuest ''D'' False [''E'']" 1 10 staleEdge staleFinal 10]
  show ?thesis using c e a p f l by simp
qed

text \<open>
  C10.  When no quest receives a level, as for the empty quest set, \<open>calculateLayout\<close>
  returns an empty position mapping, no level group, and \<open>maxLevel\<close> is the maximum of
  no keys at all: \<^verbatim>\<open>-Infinity\<close>, not a level.
\<close>

theorem no_level_gives_neg_infinity:
  "computeLevels depth quests = Some s \<Longrightarrow> levels s = [] \<Longrightarrow>
   calculateLayout depth quests nodePositions
     = Some (\<lparr>maxLevel = NegInfinity, levelGroups = []\<rparr>, [])"
  by (simp add: calculateLayout_def groupByLevel_def)

theorem no_level_gives_neg_infinity_witness:
  "computeLevels 10 [] = Some emptyState \<and> levels emptyState = [] \<and>
   calculateLayout 10 [] [] = Some (\<lparr>maxLevel = NegInfinity, levelGroups = []\<rparr>, [])"
proof -
  have h1: "computeLevels 10 [] = Some emptyState" by code_simp
  have h2: "levels emptyState = []" by (simp add: emptyState_def)
  show ?thesis using h1 h2 no_level_gives_neg_infinity [OF h1 h2, of "[]"] by simp
qed

end
